theory Spec2Isabelle
  imports Complex_Main "HOL-Library.Multiset"
begin

section \<open>The batch generator of \<^verbatim>\<open>batch_gen.py\<close>\<close>

text \<open>
  The development embeds \<^verbatim>\<open>BatchGenerator.generate\<close> and the module-level helper
  \<^verbatim>\<open>flip\<close>.  Conventions of the embedding:

  \<^item> Python integers are \<^typ>\<open>int\<close>; list positions and the batch size are \<^typ>\<open>nat\<close>.
  \<^item> A Python or NumPy float is the \<^typ>\<open>real\<close> number it stands for.  The arithmetic of
    floats rounds: an operation on floats, and the conversion of an integer to a float,
    returns \<open>fl\<close> of the exact result, where \<open>fl\<close>, the rounding of the machine, is a
    parameter of the model.  Statements that depend on how \<open>fl\<close> rounds say so.
  \<^item> Random choices are inputs: the permutation used by each \<^verbatim>\<open>shuffle\<close>, the uniform
    draws \<^verbatim>\<open>p\<close> and the crop positions are read from an explicit source of draws.
  \<^item> Exceptions are values of type \<open>error\<close>; a computation that may raise returns
    \<open>error + 'a\<close> with \<open>Inl\<close> for the raised exception.
  \<^item> A ground-truth box is one row \<^verbatim>\<open>[class_id, xmin, xmax, ymin, ymax]\<close> of the label
    array (\<^verbatim>\<open>box_output_format\<close>); a label array is a list of rows.
  \<^item> Inside \<^verbatim>\<open>generate\<close> the pixel data is only touched by OpenCV, PIL and NumPy
    slicing, so an image is represented there by its extents, which is all the box
    arithmetic reads.  Pixel data is modelled for the module-level \<^verbatim>\<open>flip\<close>.
\<close>

subsection \<open>Data\<close>

datatype error = TypeError | ValueError | ZeroDivisionError | IOError

definition bind_err :: "error + 'a \<Rightarrow> ('a \<Rightarrow> error + 'b) \<Rightarrow> error + 'b" where
  "bind_err r f = (case r of Inl e \<Rightarrow> Inl e | Inr v \<Rightarrow> f v)"

record box =
  class_id :: int
  xmin :: int
  xmax :: int
  ymin :: int
  ymax :: int

text \<open>The generator's own variables: the (consistently shuffled) dataset, kept as a list
  of samples, and the local cursor \<^verbatim>\<open>current\<close>.\<close>

record 'a cycler =
  samples :: "'a list"
  current :: nat

subsection \<open>Shuffling and slicing (lines 368--393)\<close>

text \<open>
  \<^verbatim>\<open>
  if current >= len(self.filenames):
      self.filenames, self.labels = shuffle(self.filenames, self.labels)
      current = 0
  ... self.filenames[current:current + batch_size] ...
  current += batch_size
  \<close>
  \<open>shuffle\<close> is the permutation drawn by \<^verbatim>\<open>sklearn.utils.shuffle\<close>; it is applied to file
  names and labels alike, so the model applies it to the list of samples.
\<close>

definition reshuffle_if_done :: "('a list \<Rightarrow> 'a list) \<Rightarrow> 'a cycler \<Rightarrow> 'a cycler" where
  "reshuffle_if_done shuffle st =
     (if current st \<ge> length (samples st)
      then \<lparr>samples = shuffle (samples st), current = 0\<rparr>
      else st)"

definition slice :: "nat \<Rightarrow> nat \<Rightarrow> 'a list \<Rightarrow> 'a list" where
  "slice lo hi xs = take (hi - lo) (drop lo xs)"

definition next_window :: "('a list \<Rightarrow> 'a list) \<Rightarrow> nat \<Rightarrow> 'a cycler \<Rightarrow> 'a list \<times> 'a cycler" where
  "next_window shuffle batch_size st =
     (let st1 = reshuffle_if_done shuffle st;
          window = slice (current st1) (current st1 + batch_size) (samples st1)
      in (window, st1\<lparr>current := current st1 + batch_size\<rparr>))"

text \<open>The first \<open>k\<close> windows of the endless loop; the \<open>j\<close>-th iteration reshuffles with
  \<open>perms j\<close> when it has to.\<close>

fun windows :: "(nat \<Rightarrow> 'a list \<Rightarrow> 'a list) \<Rightarrow> nat \<Rightarrow> nat \<Rightarrow> nat \<Rightarrow> 'a cycler \<Rightarrow> 'a list list" where
  "windows perms batch_size j 0 st = []"
| "windows perms batch_size j (Suc k) st =
     (case next_window (perms j) batch_size st of
        (window, st') \<Rightarrow> window # windows perms batch_size (Suc j) k st')"

text \<open>\<^verbatim>\<open>generate\<close> shuffles once before the loop and starts at \<^verbatim>\<open>current = 0\<close>.\<close>

definition start :: "('a list \<Rightarrow> 'a list) \<Rightarrow> 'a list \<Rightarrow> 'a cycler" where
  "start perm0 dataset = \<lparr>samples = perm0 dataset, current = 0\<rparr>"

subsection \<open>The module-level \<^verbatim>\<open>flip\<close> (lines 65--72)\<close>

text \<open>An image is a list of rows of pixels.  \<^verbatim>\<open>cv2.flip(image, 1)\<close> mirrors every row,
  \<^verbatim>\<open>cv2.flip(image, 0)\<close> reverses the order of the rows.\<close>

definition cv2_flip :: "'p list list \<Rightarrow> int \<Rightarrow> 'p list list" where
  "cv2_flip img flip_code = (if flip_code > 0 then map rev img
                               else if flip_code = 0 then rev img
                               else rev (map rev img))"

definition flip :: "'p list list \<Rightarrow> string \<Rightarrow> 'p list list" where
  "flip img orientation =
     (if orientation = ''horizontal'' then cv2_flip img 1 else cv2_flip img 0)"

subsection \<open>Box arithmetic\<close>

text \<open>\<^verbatim>\<open>a[:, [ymin, ymax]]\<close> and \<^verbatim>\<open>a[:, [xmin, xmax]]\<close> select the two vertical, respectively
  horizontal, coordinates of every row; an update of such a selection acts on both.\<close>

definition map_y :: "(int \<Rightarrow> int) \<Rightarrow> box list \<Rightarrow> box list" where
  "map_y f = map (\<lambda>b. b\<lparr>ymin := f (ymin b), ymax := f (ymax b)\<rparr>)"

definition map_x :: "(int \<Rightarrow> int) \<Rightarrow> box list \<Rightarrow> box list" where
  "map_x f = map (\<lambda>b. b\<lparr>xmin := f (xmin b), xmax := f (xmax b)\<rparr>)"

text \<open>Line 424: \<^verbatim>\<open>batch_y[i][:, [xmin, xmax]] = img_width - batch_y[i][:, [xmax, xmin]]\<close>.\<close>

definition flip_boxes :: "int \<Rightarrow> box list \<Rightarrow> box list" where
  "flip_boxes w = map (\<lambda>b. b\<lparr>xmin := w - xmax b, xmax := w - xmin b\<rparr>)"

text \<open>\<^verbatim>\<open>coords[coords < 0] = 0\<close> and \<^verbatim>\<open>coords[coords >= extent] = extent - 1\<close>.\<close>

definition limit_low :: "int \<Rightarrow> int" where
  "limit_low c = (if c < 0 then 0 else c)"

definition limit_high :: "int \<Rightarrow> int \<Rightarrow> int" where
  "limit_high extent c = (if c \<ge> extent then extent - 1 else c)"

definition area :: "box \<Rightarrow> int" where
  "area b = (xmax b - xmin b) * (ymax b - ymin b)"

text \<open>Boolean-mask indexing \<^verbatim>\<open>a[mask]\<close> keeps the rows whose mask entry is true.\<close>

definition select :: "bool list \<Rightarrow> 'a list \<Rightarrow> 'a list" where
  "select keep rows = map snd (filter fst (zip keep rows))"

text \<open>The threshold filter, written three times in the source with the same text
  (lines 458--471, 594--606 and 670--683).  The areas are integer arrays: the product
  with the float \<^verbatim>\<open>include_thresh\<close> and the comparison convert them to floats.\<close>

definition threshold_filter :: "(real \<Rightarrow> real) \<Rightarrow> real \<Rightarrow> box list \<Rightarrow> box list \<Rightarrow> box list" where
  "threshold_filter fl thresh before_limiting limited =
     (let before_area = map area before_limiting;
          after_area = map area limited
      in if thresh = 0
         then select (map2 (\<lambda>a b. fl (real_of_int a) > fl (thresh * fl (real_of_int b)))
                        after_area before_area) limited
         else select (map2 (\<lambda>a b. fl (real_of_int a) \<ge> fl (thresh * fl (real_of_int b)))
                        after_area before_area) limited)"


subsection \<open>The per-image state and the options of \<^verbatim>\<open>generate\<close>\<close>

text \<open>The locals \<^verbatim>\<open>img_height\<close>, \<^verbatim>\<open>img_width\<close> and the label array \<^verbatim>\<open>batch_y[i]\<close>.  The two
  extents are read from the shape of the loaded image and follow the image through both
  crops; after resizing the fields hold the extents of the resized image.\<close>

record img_state =
  img_height :: int
  img_width :: int
  boxes :: "box list"

text \<open>The keyword arguments.  An option that is \<^verbatim>\<open>None\<close> or \<^verbatim>\<open>False\<close> is \<open>None\<close>; the
  encoder is the function \<^verbatim>\<open>ssd_box_encoder.encode_y\<close>.  The argument \<^verbatim>\<open>flip\<close> is the field
  \<open>flip_prob\<close>, since \<open>flip\<close> names the module-level function here.\<close>

record 'y config =
  batch_size :: nat
  train :: bool
  ssd_box_encoder :: "(box list list \<Rightarrow> 'y) option"
  equalize :: bool
  brightness :: "(real \<times> real \<times> real) option"
  flip_prob :: "real option"
  scale :: "(real \<times> real \<times> real) option"
  random_crop :: "(int \<times> int \<times> int \<times> int) option"
  crop :: "(int \<times> int \<times> int \<times> int) option"
  resize :: "(int \<times> int) option"
  gray :: bool
  limit_boxes :: bool
  include_thresh :: real

text \<open>The random numbers one image consumes: the three uniform draws \<^verbatim>\<open>p\<close> and, for the
  \<open>k\<close>-th crop trial, the pair \<^verbatim>\<open>(crop_ymin, crop_xmin)\<close>.\<close>

record draws =
  p_brightness :: real
  p_flip :: real
  p_scale :: real
  crop_pos :: "nat \<Rightarrow> int \<times> int"

subsection \<open>Random cropping (lines 473--629)\<close>

text \<open>One trial: the four cases of lines 503--588 and the filter of lines 593--606.\<close>

definition crop_trial :: "(real \<Rightarrow> real) \<Rightarrow> bool \<Rightarrow> real \<Rightarrow> int \<Rightarrow> int \<Rightarrow> int \<Rightarrow> int \<Rightarrow> int \<times> int \<Rightarrow> box list \<Rightarrow> box list" where
  "crop_trial fl limit thresh rc0 rc1 h w pos bs =
     (case pos of (crop_ymin, crop_xmin) \<Rightarrow>
      let y_range = h - rc0;
          x_range = w - rc1;
          (before_limiting, patch_y) =
            (if y_range \<ge> 0 \<and> x_range \<ge> 0 then
               let p = map_x (\<lambda>c. c - crop_xmin) (map_y (\<lambda>c. c - crop_ymin) bs)
               in (p, if limit
                      then map_x (limit_high rc1 \<circ> limit_low) (map_y (limit_high rc0 \<circ> limit_low) p)
                      else p)
             else if y_range \<ge> 0 \<and> x_range < 0 then
               let p = map_x (\<lambda>c. c + crop_xmin) (map_y (\<lambda>c. c - crop_ymin) bs)
               in (p, if limit then map_y (limit_high rc0 \<circ> limit_low) p else p)
             else if y_range < 0 \<and> x_range \<ge> 0 then
               let p = map_x (\<lambda>c. c - crop_xmin) (map_y (\<lambda>c. c + crop_ymin) bs)
               in (p, if limit then map_x (limit_high rc1 \<circ> limit_low) p else p)
             else
               let p = map_x (\<lambda>c. c + crop_xmin) (map_y (\<lambda>c. c + crop_ymin) bs)
               in (p, p))
      in if limit \<and> (y_range \<ge> 0 \<or> x_range \<ge> 0)
         then threshold_filter fl thresh before_limiting patch_y
         else patch_y)"

text \<open>The loop of line 484 with its variables: the flag \<^verbatim>\<open>min_1_object_fulfilled\<close>, the
  counter \<^verbatim>\<open>trial_counter\<close>, the image state and \<^verbatim>\<open>batch_items_to_remove\<close>.  The
  \<^verbatim>\<open>break\<close> of line 617 is the return of the first branch.  The result also reports the
  final value of the counter, which is the number of trials performed.\<close>

function crop_loop ::
  "(real \<Rightarrow> real) \<Rightarrow> bool \<Rightarrow> real \<Rightarrow> int \<times> int \<times> int \<times> int \<Rightarrow> (nat \<Rightarrow> int \<times> int) \<Rightarrow> nat \<Rightarrow>
     bool \<Rightarrow> int \<Rightarrow> img_state \<Rightarrow> nat list \<Rightarrow> img_state \<times> nat list \<times> int" where
  "crop_loop fl limit thresh rc pos i fulfilled trial_counter s rem =
     (case rc of (rc0, rc1, rc2, rc3) \<Rightarrow>
      if \<not> fulfilled \<and> trial_counter < rc3 then
        let patch_y = crop_trial fl limit thresh rc0 rc1 (img_height s) (img_width s)
                        (pos (nat trial_counter)) (boxes s);
            tc = trial_counter + 1
        in if rc2 = 0 then
             (\<lparr>img_height = rc0, img_width = rc1, boxes = patch_y\<rparr>, rem, tc)
           else if length patch_y > 0 then
             crop_loop fl limit thresh rc pos i True tc
               \<lparr>img_height = rc0, img_width = rc1, boxes = patch_y\<rparr> rem
           else if tc \<ge> rc3 \<and> i \<notin> set rem then
             crop_loop fl limit thresh rc pos i fulfilled tc s (rem @ [i])
           else
             crop_loop fl limit thresh rc pos i fulfilled tc s rem
      else (s, rem, trial_counter))"
  by pat_completeness auto
termination
  by (relation "measure (\<lambda>(fl, limit, thresh, rc, pos, i, fulfilled, tc, s, rem).
                   if fulfilled then 0 else Suc (nat (snd (snd (snd rc)) - tc)))") auto

declare crop_loop.simps [simp del]

subsection \<open>Fixed cropping (lines 631--683) and resizing (lines 685--689)\<close>

definition fixed_crop :: "(real \<Rightarrow> real) \<Rightarrow> bool \<Rightarrow> real \<Rightarrow> int \<times> int \<times> int \<times> int \<Rightarrow> img_state \<Rightarrow> img_state" where
  "fixed_crop fl limit thresh c s =
     (case c of (c0, c1, c2, c3) \<Rightarrow>
      let b1 = (if c0 > 0 then map_y (\<lambda>y. y - c0) (boxes s) else boxes s);
          b2 = (if c2 > 0 then map_x (\<lambda>x. x - c2) b1 else b1);
          h = img_height s - (c0 + c1);
          w = img_width s - (c2 + c3)
      in if limit then
           let before_limiting = b2;
               l1 = (if c0 > 0 then map_y limit_low b2 else b2);
               l2 = (if c1 > 0 then map_y (limit_high h) l1 else l1);
               l3 = (if c2 > 0 then map_x limit_low l2 else l2);
               l4 = (if c3 > 0 then map_x (limit_high w) l3 else l3)
           in \<lparr>img_height = h, img_width = w,
               boxes = threshold_filter fl thresh before_limiting l4\<rparr>
         else \<lparr>img_height = h, img_width = w, boxes = b2\<rparr>)"

text \<open>\<^verbatim>\<open>astype(np.int)\<close> converts a float to an integer as a C cast does.\<close>

definition astype_int :: "real \<Rightarrow> int" where
  "astype_int r = (if r \<ge> 0 then \<lfloor>r\<rfloor> else \<lceil>r\<rceil>)"

text \<open>\<^verbatim>\<open>resize\<close> is \<^verbatim>\<open>(width, height)\<close>.  The quotients \<^verbatim>\<open>resize[0] / img_width\<close> and
  \<^verbatim>\<open>resize[1] / img_height\<close> divide Python integers and raise on a zero divisor.\<close>

definition resize_step :: "(real \<Rightarrow> real) \<Rightarrow> int \<times> int \<Rightarrow> img_state \<Rightarrow> error + img_state" where
  "resize_step fl r s =
     (case r of (r0, r1) \<Rightarrow>
      if img_width s = 0 then Inl ZeroDivisionError
      else
        let b1 = map_x (\<lambda>x. astype_int (fl (fl (real_of_int x)
                                              * fl (real_of_int r0 / real_of_int (img_width s)))))
                   (boxes s)
        in if img_height s = 0 then Inl ZeroDivisionError
           else
             let b2 = map_y (\<lambda>y. astype_int (fl (fl (real_of_int y)
                                                   * fl (real_of_int r1 / real_of_int (img_height s)))))
                        b1
             in Inr \<lparr>img_height = r1, img_width = r0, boxes = b2\<rparr>)"

subsection \<open>The transforms of one image (lines 404--692)\<close>

text \<open>The guards of lines 411--413, 420--422 and 427--429.  A tuple is true in a Python
  condition, a float is true unless it is zero.\<close>

definition brightness_taken :: "(real \<Rightarrow> real) \<Rightarrow> 'y config \<Rightarrow> draws \<Rightarrow> bool" where
  "brightness_taken fl cfg d =
     (case brightness cfg of None \<Rightarrow> False
      | Some (mn, mx, prob) \<Rightarrow> p_brightness d \<ge> fl (1 - prob))"

definition flip_taken :: "(real \<Rightarrow> real) \<Rightarrow> 'y config \<Rightarrow> draws \<Rightarrow> bool" where
  "flip_taken fl cfg d =
     (case flip_prob cfg of None \<Rightarrow> False
      | Some prob \<Rightarrow> prob \<noteq> 0 \<and> p_flip d \<ge> fl (1 - prob))"

definition scale_taken :: "(real \<Rightarrow> real) \<Rightarrow> 'y config \<Rightarrow> draws \<Rightarrow> bool" where
  "scale_taken fl cfg d =
     (case scale cfg of None \<Rightarrow> False
      | Some (mn, mx, prob) \<Rightarrow> p_scale d \<ge> fl (1 - prob))"

text \<open>
  Inside \<^verbatim>\<open>generate\<close> the names \<^verbatim>\<open>brightness\<close>, \<^verbatim>\<open>flip\<close> and \<^verbatim>\<open>scale\<close> are the keyword
  arguments, so the calls \<^verbatim>\<open>brightness(...)\<close> (line 414), \<^verbatim>\<open>flip(...)\<close> (line 423) and
  \<^verbatim>\<open>scale(...)\<close> (line 432) apply a tuple or a float and raise \<^verbatim>\<open>TypeError\<close>; the
  statements after them in the three branches are not reached.  Histogram equalisation
  and the grey conversion change pixels only.
\<close>

definition augment_image ::
  "(real \<Rightarrow> real) \<Rightarrow> 'y config \<Rightarrow> draws \<Rightarrow> nat \<Rightarrow> img_state \<Rightarrow> nat list \<Rightarrow> error + img_state \<times> nat list" where
  "augment_image fl cfg d i s rem =
     (if brightness_taken fl cfg d then Inl TypeError
      else if flip_taken fl cfg d then Inl TypeError
      else if scale_taken fl cfg d then Inl TypeError
      else
        let (s1, rem1) =
              (case random_crop cfg of None \<Rightarrow> (s, rem)
               | Some rc \<Rightarrow>
                   (case crop_loop fl (limit_boxes cfg) (include_thresh cfg) rc (crop_pos d) i
                           False 0 s rem of
                      (s', rem', trials) \<Rightarrow> (s', rem')));
            s2 = (case crop cfg of None \<Rightarrow> s1
                  | Some c \<Rightarrow> fixed_crop fl (limit_boxes cfg) (include_thresh cfg) c s1)
        in (case resize cfg of None \<Rightarrow> Inr (s2, rem1)
            | Some r \<Rightarrow> bind_err (resize_step fl r s2) (\<lambda>s3. Inr (s3, rem1))))"

text \<open>The loop \<^verbatim>\<open>for i in range(len(batch__x))\<close>: it stops at the first exception.\<close>

fun augment_all ::
  "(real \<Rightarrow> real) \<Rightarrow> 'y config \<Rightarrow> (nat \<Rightarrow> draws) \<Rightarrow> nat \<Rightarrow> img_state list \<Rightarrow> nat list \<Rightarrow>
     error + img_state list \<times> nat list" where
  "augment_all fl cfg rnd i [] rem = Inr ([], rem)"
| "augment_all fl cfg rnd i (s # ss) rem =
     bind_err (augment_image fl cfg (rnd i) i s rem) (\<lambda>(s', rem').
       bind_err (augment_all fl cfg rnd (Suc i) ss rem') (\<lambda>(ss', rem'').
         Inr (s' # ss', rem'')))"

subsection \<open>One iteration of the endless loop (lines 377--714)\<close>

text \<open>Loading (lines 386--388): \<open>load\<close> stands for \<^verbatim>\<open>Image.open\<close> followed by \<^verbatim>\<open>np.array\<close>
  and returns the height and width of the decoded image, or the exception raised.
  \<open>opened\<close> lists the files on which the loader was called.\<close>

fun load_images :: "(string \<Rightarrow> error + int \<times> int) \<Rightarrow> string list \<Rightarrow> error + (int \<times> int) list" where
  "load_images load [] = Inr []"
| "load_images load (f # fs) =
     bind_err (load f) (\<lambda>img. bind_err (load_images load fs) (\<lambda>imgs. Inr (img # imgs)))"

fun opened :: "(string \<Rightarrow> error + int \<times> int) \<Rightarrow> string list \<Rightarrow> string list" where
  "opened load [] = []"
| "opened load (f # fs) = f # (case load f of Inl e \<Rightarrow> [] | Inr img \<Rightarrow> opened load fs)"

text \<open>Lines 695--697: \<^verbatim>\<open>pop(j)\<close> for the marked positions, largest first.  Every marked
  position is a value of the loop variable \<^verbatim>\<open>i\<close>, hence a position of the list.\<close>

definition pop :: "nat \<Rightarrow> 'a list \<Rightarrow> 'a list" where
  "pop j xs = take j xs @ drop (Suc j) xs"

definition remove_items :: "nat list \<Rightarrow> 'a list \<Rightarrow> 'a list" where
  "remove_items batch_items_to_remove xs = foldl (\<lambda>acc j. pop j acc) xs (rev (sort batch_items_to_remove))"

text \<open>What one \<^verbatim>\<open>yield\<close> hands out: the images (their extents) with the encoded labels,
  or the images with the label arrays and \<^verbatim>\<open>this_filenames\<close>.\<close>

datatype 'y batch =
  Train_batch "(int \<times> int) list" 'y
| Infer_batch "(int \<times> int) list" "box list list" "string list"

definition extents :: "img_state \<Rightarrow> int \<times> int" where
  "extents s = (img_height s, img_width s)"

text \<open>Image \<open>i\<close> of \<^verbatim>\<open>batch__x\<close> with the label array \<open>i\<close> of \<^verbatim>\<open>batch_y\<close>, as the loop over
  \<^verbatim>\<open>i\<close> reads them (lines 404--405).\<close>

definition window_items :: "(int \<times> int) list \<Rightarrow> (string \<times> box list) list \<Rightarrow> img_state list" where
  "window_items batch_x window =
     map2 (\<lambda>(h, w) bs. \<lparr>img_height = h, img_width = w, boxes = bs\<rparr>) batch_x (map snd window)"

text \<open>One pass through the body of \<^verbatim>\<open>while True\<close>.  The first component of the result
  is the list of files opened on the way, the second the exception raised or the batch
  yielded together with the generator's new state.\<close>

definition next_batch ::
  "(real \<Rightarrow> real) \<Rightarrow> 'y config \<Rightarrow> (string \<Rightarrow> error + int \<times> int) \<Rightarrow>
     ((string \<times> box list) list \<Rightarrow> (string \<times> box list) list) \<Rightarrow> (nat \<Rightarrow> draws) \<Rightarrow>
     (string \<times> box list) cycler \<Rightarrow>
     string list \<times> (error + 'y batch \<times> (string \<times> box list) cycler)" where
  "next_batch fl cfg load shuffle rnd st =
     (case next_window shuffle (batch_size cfg) st of (window, st') \<Rightarrow>
      let this_filenames = map fst window
      in (opened load this_filenames,
          bind_err (load_images load this_filenames) (\<lambda>batch_x.
          bind_err (augment_all fl cfg rnd 0 (window_items batch_x window) [])
            (\<lambda>(items, batch_items_to_remove).
               let left = remove_items batch_items_to_remove items
               in if train cfg then
                    (case ssd_box_encoder cfg of
                       None \<Rightarrow> Inl ValueError
                     | Some encode_y \<Rightarrow>
                         Inr (Train_batch (map extents left) (encode_y (map boxes left)), st'))
                  else Inr (Infer_batch (map extents left) (map boxes left) this_filenames, st')))))"

section \<open>Notions used in the statements\<close>

text \<open>Truncation toward zero: the integer part of a real number, with the sign kept.\<close>

definition toward_zero :: "real \<Rightarrow> int" where
  "toward_zero r = (if r < 0 then - \<lfloor>- r\<rfloor> else \<lfloor>r\<rfloor>)"

text \<open>What the statements below use of the rounding of IEEE binary64 arithmetic
  (round to nearest), on the values that occur: rounding is monotone and idempotent, an
  integer of magnitude at most \<open>2^53\<close> is a float, and between \<open>2^-64\<close> and \<open>2^64\<close> the
  relative error of rounding is at most \<open>2^-53\<close>.\<close>

definition float_like :: "(real \<Rightarrow> real) \<Rightarrow> bool" where
  "float_like fl =
     ((\<forall>a b. a \<le> b \<longrightarrow> fl a \<le> fl b)
      \<and> (\<forall>y. fl (fl y) = fl y)
      \<and> (\<forall>k::int. \<bar>k\<bar> \<le> 2 ^ 53 \<longrightarrow> fl (real_of_int k) = real_of_int k)
      \<and> (\<forall>y. 1 / 2 ^ 64 \<le> \<bar>y\<bar> \<and> \<bar>y\<bar> \<le> 2 ^ 64 \<longrightarrow> \<bar>fl y - y\<bar> \<le> \<bar>y\<bar> / 2 ^ 53))"

text \<open>The rule of the threshold filter on the areas of one box before and after limiting.\<close>

definition kept :: "(real \<Rightarrow> real) \<Rightarrow> real \<Rightarrow> int \<Rightarrow> int \<Rightarrow> bool" where
  "kept fl thresh area_before area_after =
     (if thresh = 0
      then fl (real_of_int area_after) > fl (thresh * fl (real_of_int area_before))
      else fl (real_of_int area_after) \<ge> fl (thresh * fl (real_of_int area_before)))"

text \<open>One box under a map of its vertical and a map of its horizontal coordinates, and
  what the shifting and the limiting statements of the three steps do to one box.\<close>

definition on_coords :: "(int \<Rightarrow> int) \<Rightarrow> (int \<Rightarrow> int) \<Rightarrow> box \<Rightarrow> box" where
  "on_coords fy fx b =
     b\<lparr>xmin := fx (xmin b), xmax := fx (xmax b), ymin := fy (ymin b), ymax := fy (ymax b)\<rparr>"


definition trial_shift :: "int \<Rightarrow> int \<Rightarrow> int \<Rightarrow> int \<Rightarrow> int \<times> int \<Rightarrow> box \<Rightarrow> box" where
  "trial_shift rc0 rc1 h w pos =
     on_coords (if h - rc0 \<ge> 0 then (\<lambda>y. y - fst pos) else (\<lambda>y. y + fst pos))
               (if w - rc1 \<ge> 0 then (\<lambda>x. x - snd pos) else (\<lambda>x. x + snd pos))"

definition trial_clip :: "int \<Rightarrow> int \<Rightarrow> int \<Rightarrow> int \<Rightarrow> box \<Rightarrow> box" where
  "trial_clip rc0 rc1 h w =
     on_coords (if h - rc0 \<ge> 0 then limit_high rc0 \<circ> limit_low else id)
               (if w - rc1 \<ge> 0 then limit_high rc1 \<circ> limit_low else id)"

definition crop_shift :: "int \<times> int \<times> int \<times> int \<Rightarrow> box \<Rightarrow> box" where
  "crop_shift c = (case c of (c0, c1, c2, c3) \<Rightarrow>
     on_coords (if c0 > 0 then (\<lambda>y. y - c0) else id) (if c2 > 0 then (\<lambda>x. x - c2) else id))"

definition crop_clip :: "int \<times> int \<times> int \<times> int \<Rightarrow> int \<Rightarrow> int \<Rightarrow> box \<Rightarrow> box" where
  "crop_clip c h w = (case c of (c0, c1, c2, c3) \<Rightarrow>
     on_coords ((if c1 > 0 then limit_high h else id) \<circ> (if c0 > 0 then limit_low else id))
               ((if c3 > 0 then limit_high w else id) \<circ> (if c2 > 0 then limit_low else id)))"

text \<open>The box invariant: a box lies within an image of the given height and width.\<close>

definition in_bounds :: "int \<Rightarrow> int \<Rightarrow> box \<Rightarrow> bool" where
  "in_bounds h w b =
     (0 \<le> xmin b \<and> xmin b \<le> xmax b \<and> xmax b < w \<and> 0 \<le> ymin b \<and> ymin b \<le> ymax b \<and> ymax b < h)"

definition boxes_ok :: "img_state \<Rightarrow> bool" where
  "boxes_ok s = list_all (in_bounds (img_height s) (img_width s)) (boxes s)"

text \<open>The crop positions are in the range \<^verbatim>\<open>np.random.randint\<close> draws them from (lines
  486--500): \<open>0, ..., y_range\<close>, or \<open>0, ..., -y_range\<close> for a negative range.\<close>

definition positions_ok :: "int \<Rightarrow> int \<Rightarrow> int \<Rightarrow> int \<Rightarrow> (nat \<Rightarrow> int \<times> int) \<Rightarrow> bool" where
  "positions_ok rc0 rc1 h w pos =
     (\<forall>k. 0 \<le> fst (pos k) \<and> fst (pos k) \<le> \<bar>h - rc0\<bar> \<and> 0 \<le> snd (pos k) \<and> snd (pos k) \<le> \<bar>w - rc1\<bar>)"

definition draws_fit :: "'y config \<Rightarrow> int \<Rightarrow> int \<Rightarrow> draws \<Rightarrow> bool" where
  "draws_fit cfg h w d =
     (case random_crop cfg of None \<Rightarrow> True
      | Some (rc0, rc1, rc2, rc3) \<Rightarrow> positions_ok rc0 rc1 h w (crop_pos d))"

text \<open>The crop and resize options leave an image of positive extents, for an image of
  height \<open>h\<close> and width \<open>w\<close>, whether or not the random crop replaces it, and no extent
  exceeds \<open>2^31\<close>.\<close>

definition crops_fit :: "'y config \<Rightarrow> int \<Rightarrow> int \<Rightarrow> bool" where
  "crops_fit cfg h w =
     (h \<le> 2 ^ 31 \<and> w \<le> 2 ^ 31
      \<and> (case random_crop cfg of None \<Rightarrow> True
         | Some (rc0, rc1, rc2, rc3) \<Rightarrow> 1 \<le> rc0 \<and> rc0 \<le> 2 ^ 31 \<and> 1 \<le> rc1 \<and> rc1 \<le> 2 ^ 31)
      \<and> (case crop cfg of None \<Rightarrow> True
         | Some (c0, c1, c2, c3) \<Rightarrow>
             0 \<le> c0 + c1 \<and> c0 + c1 < h \<and> 0 \<le> c2 + c3 \<and> c2 + c3 < w
             \<and> (case random_crop cfg of None \<Rightarrow> True
                | Some (rc0, rc1, rc2, rc3) \<Rightarrow> c0 + c1 < rc0 \<and> c2 + c3 < rc1))
      \<and> (case resize cfg of None \<Rightarrow> True
         | Some (r0, r1) \<Rightarrow> 1 \<le> r0 \<and> r0 \<le> 2 ^ 31 \<and> 1 \<le> r1 \<and> r1 \<le> 2 ^ 31))"

text \<open>One of the three guarded branches is taken for an image.\<close>

definition shadowed_call :: "(real \<Rightarrow> real) \<Rightarrow> 'y config \<Rightarrow> draws \<Rightarrow> bool" where
  "shadowed_call fl cfg d = (brightness_taken fl cfg d \<or> flip_taken fl cfg d \<or> scale_taken fl cfg d)"

subsection \<open>Concrete inputs of the examples\<close>

text \<open>A source of permutations: every reshuffle reverses the list.\<close>

definition reversing :: "nat \<Rightarrow> 'a list \<Rightarrow> 'a list" where
  "reversing j = rev"

text \<open>The default values of the keyword arguments (lines 271--283).  The literal \<^verbatim>\<open>0.3\<close>
  is the float \<open>5404319552844595 / 2^54\<close>.\<close>

definition defaults :: "unit config" where
  "defaults = \<lparr>batch_size = 32, train = True, ssd_box_encoder = None, equalize = False,
      brightness = None, flip_prob = None, scale = None, random_crop = None, crop = None,
      resize = None, gray = False, limit_boxes = True,
      include_thresh = 5404319552844595 / 18014398509481984\<rparr>"

text \<open>Every file decodes to an image of 10 by 10 pixels; every uniform draw is 0 and
  every crop position is \<open>pos\<close>.\<close>

definition load_10x10 :: "string \<Rightarrow> error + int \<times> int" where
  "load_10x10 f = Inr (10, 10)"

definition draws_at :: "int \<times> int \<Rightarrow> nat \<Rightarrow> draws" where
  "draws_at pos i = \<lparr>p_brightness = 0, p_flip = 0, p_scale = 0, crop_pos = (\<lambda>k. pos)\<rparr>"

definition corner_box :: box where
  "corner_box = \<lparr>class_id = 0, xmin = 0, xmax = 2, ymin = 0, ymax = 2\<rparr>"

definition far_box :: box where
  "far_box = \<lparr>class_id = 0, xmin = 8, xmax = 9, ymin = 8, ymax = 9\<rparr>"


definition two_samples :: "(string \<times> box list) list" where
  "two_samples = [(''a.png'', [corner_box]), (''b.png'', [far_box])]"

text \<open>The definitions a concrete run of the model unfolds.\<close>

lemmas run_defs = next_batch_def next_window_def reshuffle_if_done_def slice_def start_def
  window_items_def bind_err_def augment_image_def brightness_taken_def flip_taken_def
  scale_taken_def crop_trial_def map_x_def map_y_def limit_low_def limit_high_def
  threshold_filter_def select_def area_def remove_items_def pop_def extents_def Let_def
  fixed_crop_def resize_step_def astype_int_def crop_loop.simps

section \<open>Properties\<close>

subsection \<open>Rounding\<close>

text \<open>Exact arithmetic is one instance of the assumptions on rounding.\<close>

lemma float_like_id: "float_like id"
  by (simp add: float_like_def)

lemma float_like_int:
  assumes "float_like fl" and "\<bar>k\<bar> \<le> 2 ^ 53"
  shows "fl (real_of_int k) = real_of_int k"
  using assms unfolding float_like_def by blast

lemma float_like_zero:
  assumes "float_like fl"
  shows "fl 0 = 0"
  using float_like_int[OF assms, of 0] by simp

lemma float_like_mono:
  assumes "float_like fl" and "a \<le> b"
  shows "fl a \<le> fl b"
  using assms unfolding float_like_def by blast

lemma float_like_error:
  assumes "float_like fl" and "1 / 2 ^ 64 \<le> y" and "y \<le> 2 ^ 64"
  shows "fl y \<le> y * (1 + 1 / 2 ^ 53)" and "y * (1 - 1 / 2 ^ 53) \<le> fl y"
proof -
  have pos: "0 < y"
  proof -
    have "(0::real) < 1 / 2 ^ 64" by simp
    then show ?thesis using assms(2) by linarith
  qed
  then have ab: "\<bar>y\<bar> = y" by simp
  have "\<bar>fl y - y\<bar> \<le> \<bar>y\<bar> / 2 ^ 53"
    using assms unfolding float_like_def ab by (metis ab)
  then have e: "\<bar>fl y - y\<bar> \<le> y * (1 / 2 ^ 53)" using ab by simp
  have d1: "y * (1 + 1 / 2 ^ 53) = y + y * (1 / 2 ^ 53)" by (simp only: distrib_left mult_1_right)
  have d2: "y * (1 - 1 / 2 ^ 53) = y - y * (1 / 2 ^ 53)" by (simp only: right_diff_distrib mult_1_right)
  show "fl y \<le> y * (1 + 1 / 2 ^ 53)" unfolding d1 using e by linarith
  show "y * (1 - 1 / 2 ^ 53) \<le> fl y" unfolding d2 using e by linarith
qed

text \<open>A coordinate within an extent \<open>w\<close>, scaled by the rounded ratio \<open>r / w\<close>, rounded and
  truncated, lies within the extent \<open>r\<close>, and the order of two coordinates is kept.\<close>

lemma scale_below:
  fixes W \<rho> u :: real
  assumes "1 \<le> W" and "W \<le> 2 ^ 31" and "0 < \<rho>" and u: "u = 1 / 2 ^ 53"
  shows "(W - 1) * (\<rho> * (1 + u)) * (1 + u) < \<rho> * W"
proof -
  have u0: "0 \<le> u" and u1: "u \<le> 1" and u3: "3 * u * 2 ^ 31 < 1"
    by (simp_all add: u)
  have sq: "(1 + u) * (1 + u) \<le> 1 + 3 * u"
  proof -
    have "u * u \<le> u * 1" using u0 u1 by (intro mult_left_mono) simp_all
    then show ?thesis by (simp add: algebra_simps)
  qed
  have "(W - 1) * ((1 + u) * (1 + u)) \<le> (W - 1) * (1 + 3 * u)"
    using sq assms(1) by (intro mult_left_mono) simp_all
  also have "\<dots> = (W - 1) + 3 * u * (W - 1)" by (simp add: algebra_simps)
  also have "\<dots> \<le> (W - 1) + 3 * u * 2 ^ 31"
  proof -
    have "3 * u * (W - 1) \<le> 3 * u * 2 ^ 31"
      using u0 assms(2) by (intro mult_left_mono) simp_all
    then show ?thesis by simp
  qed
  also have "\<dots> < W" using u3 by simp
  finally have "(W - 1) * ((1 + u) * (1 + u)) < W" .
  then have "\<rho> * ((W - 1) * ((1 + u) * (1 + u))) < \<rho> * W"
    using assms(3) by (simp only: mult_less_cancel_left_pos)
  moreover have "(W - 1) * (\<rho> * (1 + u)) * (1 + u) = \<rho> * ((W - 1) * ((1 + u) * (1 + u)))"
    by (simp only: ac_simps)
  ultimately show ?thesis by (simp only:)
qed

lemma scaled_in_range:
  assumes fl: "float_like fl" and x: "0 \<le> x" "x \<le> x'" "x' < w" and w: "w \<le> 2 ^ 31"
    and r: "1 \<le> r" "r \<le> 2 ^ 31"
  shows "0 \<le> astype_int (fl (fl (real_of_int x) * fl (real_of_int r / real_of_int w)))"
    and "astype_int (fl (fl (real_of_int x) * fl (real_of_int r / real_of_int w)))
           \<le> astype_int (fl (fl (real_of_int x') * fl (real_of_int r / real_of_int w)))"
    and "astype_int (fl (fl (real_of_int x') * fl (real_of_int r / real_of_int w))) < r"
proof -
  define u :: real where "u = 1 / 2 ^ 53"
  define W where "W = real_of_int w"
  define R where "R = real_of_int r"
  define \<rho> where "\<rho> = R / W"
  define q where "q = fl \<rho>"
  have big: "(2::int) ^ 31 \<le> 2 ^ 53" by simp
  have ex: "fl (real_of_int x) = real_of_int x"
    using float_like_int[OF fl, of x] x w big by simp
  have ex': "fl (real_of_int x') = real_of_int x'"
    using float_like_int[OF fl, of x'] x w big by simp
  have W1: "1 \<le> W" using x by (simp add: W_def)
  have W31: "W \<le> 2 ^ 31"
  proof -
    have "real_of_int w \<le> real_of_int (2 ^ 31)" using w by (simp only: of_int_le_iff)
    then show ?thesis by (simp add: W_def)
  qed
  have R1: "1 \<le> R" using r by (simp add: R_def)
  have R31: "R \<le> 2 ^ 31"
  proof -
    have "real_of_int r \<le> real_of_int (2 ^ 31)" using r by (simp only: of_int_le_iff)
    then show ?thesis by (simp add: R_def)
  qed
  have rho_lo: "1 / 2 ^ 31 \<le> \<rho>"
    unfolding \<rho>_def using R1 W1 W31 by (intro frac_le) simp_all
  have rho_hi: "\<rho> \<le> 2 ^ 31"
  proof -
    have "R / W \<le> R / 1" using R1 W1 by (intro divide_left_mono) simp_all
    then show ?thesis using R31 by (simp add: \<rho>_def)
  qed
  have rho_pos: "0 < \<rho>"
  proof -
    have "(0::real) < 1 / 2 ^ 31" by simp
    then show ?thesis using rho_lo by linarith
  qed
  have rng: "1 / 2 ^ 64 \<le> \<rho>" "\<rho> \<le> 2 ^ 64"
  proof -
    have "(1::real) / 2 ^ 64 \<le> 1 / 2 ^ 31" by simp
    then show "1 / 2 ^ 64 \<le> \<rho>" using rho_lo by linarith
    have "(2::real) ^ 31 \<le> 2 ^ 64" by simp
    then show "\<rho> \<le> 2 ^ 64" using rho_hi by linarith
  qed
  have q_hi: "q \<le> \<rho> * (1 + u)" and q_lo: "\<rho> * (1 - u) \<le> q"
    using float_like_error[OF fl rng] by (simp_all add: q_def u_def)
  have half: "1 / 2 \<le> 1 - u" by (simp add: u_def)
  have q_ge: "1 / 2 ^ 32 \<le> q"
  proof -
    have "1 / 2 ^ 31 * (1 / 2) \<le> \<rho> * (1 - u)"
      using rho_lo half by (intro mult_mono) simp_all
    then show ?thesis using q_lo by simp
  qed
  have q_pos: "0 \<le> q"
  proof -
    have "(0::real) \<le> 1 / 2 ^ 32" by simp
    then show ?thesis using q_ge by linarith
  qed
  have nn: "0 \<le> fl (real_of_int z * q)" if "0 \<le> z" for z
  proof -
    have "0 \<le> real_of_int z * q" using that q_pos by simp
    then have "fl 0 \<le> fl (real_of_int z * q)" by (rule float_like_mono[OF fl])
    then show ?thesis by (simp add: float_like_zero[OF fl])
  qed
  have mono: "fl (real_of_int x * q) \<le> fl (real_of_int x' * q)"
  proof -
    have "real_of_int x * q \<le> real_of_int x' * q"
      using x(2) q_pos by (intro mult_right_mono) simp_all
    then show ?thesis by (rule float_like_mono[OF fl])
  qed
  have x'0: "0 \<le> x'" using x by simp
  have below: "fl (real_of_int x' * q) < R"
  proof (cases "x' = 0")
    case True
    then show ?thesis using R1 by (simp add: float_like_zero[OF fl])
  next
    case False
    then have x1: "1 \<le> real_of_int x'" using x'0 by simp
    have xW: "real_of_int x' \<le> W - 1" using x(3) by (simp add: W_def)
    let ?y = "real_of_int x' * q"
    have y_lo: "1 / 2 ^ 64 \<le> ?y"
    proof -
      have "1 * q \<le> ?y" using x1 q_pos by (intro mult_right_mono) simp_all
      moreover have "(1::real) / 2 ^ 64 \<le> 1 / 2 ^ 32" by simp
      ultimately show ?thesis using q_ge by linarith
    qed
    have y_le: "?y \<le> (W - 1) * (\<rho> * (1 + u))"
      using xW q_hi q_pos x'0 by (intro mult_mono) simp_all
    have y_hi: "?y \<le> 2 ^ 64"
    proof -
      define B where "B = \<rho> * (1 + u)"
      have "1 + u \<le> 2" and "0 \<le> 1 + u" by (simp_all add: u_def)
      then have B_hi: "B \<le> 2 ^ 31 * 2"
        unfolding B_def using rho_hi rho_pos by (intro mult_mono) simp_all
      have B_lo: "0 \<le> B" unfolding B_def using rho_pos by (simp add: u_def)
      have "(W - 1) * B \<le> 2 ^ 31 * (2 ^ 31 * 2)"
        by (rule mult_mono) (use W1 W31 B_hi B_lo in simp_all)
      then have "(W - 1) * (\<rho> * (1 + u)) \<le> 2 ^ 31 * (2 ^ 31 * 2)"
        by (simp only: B_def)
      moreover have "(2::real) ^ 31 * (2 ^ 31 * 2) \<le> 2 ^ 64" by simp
      ultimately show ?thesis using y_le by linarith
    qed
    have "fl ?y \<le> ?y * (1 + u)"
      using float_like_error(1)[OF fl y_lo y_hi] by (simp add: u_def)
    also have "\<dots> \<le> (W - 1) * (\<rho> * (1 + u)) * (1 + u)"
      using y_le by (intro mult_right_mono) (simp_all add: u_def)
    also have "\<dots> < \<rho> * W"
      using scale_below[OF W1 W31 rho_pos u_def] .
    also have "\<dots> = R" using W1 by (simp add: \<rho>_def)
    finally show ?thesis .
  qed
  show "0 \<le> astype_int (fl (fl (real_of_int x) * fl (real_of_int r / real_of_int w)))"
    using nn[OF x(1)] by (simp add: ex astype_int_def q_def \<rho>_def R_def W_def)
  show "astype_int (fl (fl (real_of_int x) * fl (real_of_int r / real_of_int w)))
           \<le> astype_int (fl (fl (real_of_int x') * fl (real_of_int r / real_of_int w)))"
    using nn[OF x(1)] nn[OF x'0] mono
    by (simp add: ex ex' astype_int_def q_def \<rho>_def R_def W_def floor_mono)
  show "astype_int (fl (fl (real_of_int x') * fl (real_of_int r / real_of_int w))) < r"
    using nn[OF x'0] below
    by (simp add: ex' astype_int_def q_def \<rho>_def R_def W_def floor_less_iff)
qed

subsection \<open>The cycle through the dataset\<close>

lemma next_window_done:
  assumes "current st \<ge> length (samples st)"
  shows "next_window sh n st =
           (take n (sh (samples st)), \<lparr>samples = sh (samples st), current = n\<rparr>)"
  using assms by (simp add: next_window_def reshuffle_if_done_def slice_def)

lemma next_window_inside:
  assumes "current st < length (samples st)"
  shows "next_window sh n st =
           (take n (drop (current st) (samples st)), st\<lparr>current := current st + n\<rparr>)"
  using assms by (simp add: next_window_def reshuffle_if_done_def slice_def)

text \<open>
  Claim C5, as the code has it.  The cursor is reset, and the dataset reshuffled, exactly
  when the cursor has reached the size of the dataset; the test does not look at
  \<open>cursor + n\<close>.  A window that starts before the end is cut at the end of the dataset:
  the batch has \<open>min n (size - cursor)\<close> samples, so the last window of a pass may be
  short, and it is yielded.
\<close>

theorem window_sizes:
  assumes "length (shuffle (samples st)) = length (samples st)"
  shows "fst (next_window shuffle n st) =
           (if current st \<ge> length (samples st) then take n (shuffle (samples st))
            else take n (drop (current st) (samples st)))
       \<and> length (fst (next_window shuffle n st)) =
           (if current st \<ge> length (samples st) then min n (length (samples st))
            else min n (length (samples st) - current st))
       \<and> snd (next_window shuffle n st) =
           (if current st \<ge> length (samples st)
            then \<lparr>samples = shuffle (samples st), current = n\<rparr>
            else \<lparr>samples = samples st, current = current st + n\<rparr>)"
  using assms by (simp add: next_window_def reshuffle_if_done_def slice_def min.commute)

theorem window_sizes_witness:
  "length (rev (samples \<lparr>samples = [0::nat, 1, 2, 3, 4], current = 4\<rparr>))
     = length (samples \<lparr>samples = [0::nat, 1, 2, 3, 4], current = 4\<rparr>)
   \<and> fst (next_window rev 2 \<lparr>samples = [0::nat, 1, 2, 3, 4], current = 4\<rparr>) = [4]
   \<and> snd (next_window rev 2 \<lparr>samples = [0::nat, 1, 2, 3, 4], current = 4\<rparr>)
       = \<lparr>samples = [0::nat, 1, 2, 3, 4], current = 6\<rparr>"
  using window_sizes[of rev "\<lparr>samples = [0::nat, 1, 2, 3, 4], current = 4\<rparr>" 2]
  by simp

text \<open>
  Claim C5 as stated fails: with five samples and batch size 2 the third batch holds the
  single remaining sample (cursor 4, \<open>4 + 2 > 5\<close>, no reshuffle), and only the fourth
  request reshuffles.
\<close>

theorem short_window_counterexample:
  "windows reversing 2 0 4 (start id [0::nat, 1, 2, 3, 4]) = [[0, 1], [2, 3], [4], [4, 3]]"
  by (simp add: next_window_def reshuffle_if_done_def slice_def start_def reversing_def
        numeral_eq_Suc)

subsection \<open>Every pass yields every sample once\<close>

lemma count_list_perm:
  assumes "distinct ds" and "mset q = mset ds" and "x \<in> set ds"
  shows "count_list q x = 1"
proof -
  have "count (mset q) x = 1"
    using assms by (simp add: distinct_count_atmost_1)
  then show ?thesis by (simp add: count_mset)
qed

lemma count_list_take_distinct:
  assumes "distinct p"
  shows "count_list (take c p) x \<le> 1"
proof -
  have "distinct (take c p)" using assms by simp
  then have "count (mset (take c p)) x \<le> 1"
    by (simp add: distinct_count_atmost_1)
  then show ?thesis by (simp add: count_mset)
qed

lemma count_list_passes:
  assumes "distinct ds" and "\<forall>q\<in>set ps. mset q = mset ds" and "x \<in> set ds"
  shows "count_list (concat ps) x = length ps"
  using assms by (induction ps) (auto simp: count_list_perm)

text \<open>What has been handed out so far, the part of the current pass included, is a
  sequence of complete passes followed by the beginning of one more.\<close>

lemma windows_passes:
  assumes perm: "\<forall>j xs. mset (perms j xs) = mset xs"
    and "mset (samples st) = mset ds"
  shows "\<exists>ps p c. take (current st) (samples st) @ concat (windows perms n j k st)
                    = concat ps @ take c p
            \<and> (\<forall>q\<in>set ps. mset q = mset ds) \<and> mset p = mset ds"
  using assms(2)
proof (induction k arbitrary: st j)
  case 0
  then show ?case
    by (intro exI[of _ "[]"] exI[of _ "samples st"] exI[of _ "current st"]) simp
next
  case (Suc k)
  show ?case
  proof (cases "current st \<ge> length (samples st)")
    case True
    let ?st' = "\<lparr>samples = perms j (samples st), current = n\<rparr>"
    have m: "mset (samples ?st') = mset ds" using perm Suc.prems by simp
    from Suc.IH[OF m, of "Suc j"] obtain ps p c where
      h: "take (current ?st') (samples ?st') @ concat (windows perms n (Suc j) k ?st')
            = concat ps @ take c p"
         "\<forall>q\<in>set ps. mset q = mset ds" "mset p = mset ds" by blast
    have "take (current st) (samples st) @ concat (windows perms n j (Suc k) st)
          = concat (samples st # ps) @ take c p"
      using True h(1) by (simp add: next_window_done)
    moreover have "\<forall>q\<in>set (samples st # ps). mset q = mset ds"
      using h(2) Suc.prems by simp
    ultimately show ?thesis using h(3) by blast
  next
    case False
    let ?st' = "st\<lparr>current := current st + n\<rparr>"
    have m: "mset (samples ?st') = mset ds" using Suc.prems by simp
    from Suc.IH[OF m, of "Suc j"] obtain ps p c where
      h: "take (current ?st') (samples ?st') @ concat (windows perms n (Suc j) k ?st')
            = concat ps @ take c p"
         "\<forall>q\<in>set ps. mset q = mset ds" "mset p = mset ds" by blast
    have "take (current st) (samples st) @ concat (windows perms n j (Suc k) st)
          = concat ps @ take c p"
      using False h(1) by (simp add: next_window_inside take_add)
    then show ?thesis using h(2,3) by blast
  qed
qed

text \<open>
  Claim C6.  For a dataset of distinct samples and shuffles that permute, the samples
  yielded by the first \<open>k\<close> batches, in order, are complete passes (each a permutation of
  the dataset) followed by the beginning of one more pass.  So the numbers of times two
  samples have been yielded differ by at most one, and when some sample has been yielded
  twice every sample has been yielded.
\<close>

theorem pass_completeness:
  assumes "distinct dataset"
    and "\<forall>j xs. mset (perms j xs) = mset xs"
    and "mset (perm0 dataset) = mset dataset"
    and "x \<in> set dataset" and "y \<in> set dataset"
  shows "(\<exists>passes p c.
            concat (windows perms n 0 k (start perm0 dataset)) = concat passes @ take c p
            \<and> (\<forall>q\<in>set passes. mset q = mset dataset) \<and> mset p = mset dataset)
       \<and> count_list (concat (windows perms n 0 k (start perm0 dataset))) x
            \<le> count_list (concat (windows perms n 0 k (start perm0 dataset))) y + 1
       \<and> (2 \<le> count_list (concat (windows perms n 0 k (start perm0 dataset))) x
            \<longrightarrow> 1 \<le> count_list (concat (windows perms n 0 k (start perm0 dataset))) y)"
proof -
  let ?ys = "concat (windows perms n 0 k (start perm0 dataset))"
  have "mset (samples (start perm0 dataset)) = mset dataset"
    using assms(3) by (simp add: start_def)
  from windows_passes[OF assms(2) this, of n 0 k]
  obtain ps p c where h: "?ys = concat ps @ take c p"
      "\<forall>q\<in>set ps. mset q = mset dataset" "mset p = mset dataset"
    by (auto simp: start_def)
  have dp: "distinct p" using h(3) assms(1) by (metis mset_eq_imp_distinct_iff)
  have cx: "count_list ?ys x = length ps + count_list (take c p) x"
    using h(1) count_list_passes[OF assms(1) h(2) assms(4)] by simp
  have cy: "count_list ?ys y = length ps + count_list (take c p) y"
    using h(1) count_list_passes[OF assms(1) h(2) assms(5)] by simp
  have le: "count_list ?ys x \<le> count_list ?ys y + 1"
    using cx cy count_list_take_distinct[OF dp, of c x] by linarith
  show ?thesis using h le by auto
qed

theorem pass_completeness_witness:
  "distinct [0::nat, 1, 2] \<and>
   2 \<le> count_list (concat (windows reversing 2 0 3 (start id [0::nat, 1, 2]))) 2 \<and>
   1 \<le> count_list (concat (windows reversing 2 0 3 (start id [0::nat, 1, 2]))) 0"
proof -
  have two: "2 \<le> count_list (concat (windows reversing 2 0 3 (start id [0::nat, 1, 2]))) 2"
    by (simp add: next_window_def reshuffle_if_done_def slice_def start_def reversing_def
          numeral_3_eq_3)
  have "2 \<le> count_list (concat (windows reversing 2 0 3 (start id [0::nat, 1, 2]))) 2
        \<longrightarrow> 1 \<le> count_list (concat (windows reversing 2 0 3 (start id [0::nat, 1, 2]))) 0"
    using pass_completeness[of "[0::nat, 1, 2]" reversing id 2 0 2 3]
    by (simp add: reversing_def)
  with two show ?thesis by simp
qed

subsection \<open>Flipping twice\<close>

text \<open>
  Claim C7.  The remap of line 424 applied twice with the same width gives back every
  box, and the module-level \<^verbatim>\<open>flip\<close> applied twice in the horizontal orientation gives
  back the image.
\<close>

theorem flip_twice:
  "flip_boxes w (flip_boxes w bs) = bs
   \<and> flip (flip img ''horizontal'') ''horizontal'' = img"
  by (simp add: flip_boxes_def flip_def cv2_flip_def rev_map o_def map_idI)

subsection \<open>Resizing\<close>


text \<open>\<open>toward_zero r\<close> lies between 0 and \<open>r\<close> and is less than one away from \<open>r\<close>.\<close>

lemma toward_zero_magnitude:
  "\<bar>real_of_int (toward_zero r)\<bar> \<le> \<bar>r\<bar>
   \<and> \<bar>r\<bar> < \<bar>real_of_int (toward_zero r)\<bar> + 1
   \<and> 0 \<le> real_of_int (toward_zero r) * r"
proof (cases "r < 0")
  case True
  have fr: "real_of_int \<lfloor>- r\<rfloor> \<le> - r" "- r < real_of_int \<lfloor>- r\<rfloor> + 1" "0 \<le> \<lfloor>- r\<rfloor>"
    using True by (linarith, linarith, simp)
  have "real_of_int \<lfloor>- r\<rfloor> * r \<le> 0"
    using fr(3) True by (simp add: mult_nonneg_nonpos)
  then show ?thesis using True fr
    by (simp add: toward_zero_def)
next
  case False
  have "real_of_int \<lfloor>r\<rfloor> \<le> r" "r < real_of_int \<lfloor>r\<rfloor> + 1" "0 \<le> \<lfloor>r\<rfloor>"
    using False by (linarith, linarith, simp)
  then show ?thesis using False
    by (simp add: toward_zero_def)
qed




subsection \<open>The threshold filter\<close>

lemma map_y_on_coords: "map_y f bs = map (on_coords f id) bs"
  by (simp add: map_y_def on_coords_def)

lemma map_x_on_coords: "map_x f bs = map (on_coords id f) bs"
  by (simp add: map_x_def on_coords_def)

lemma map_x_map_y: "map_x fx (map_y fy bs) = map (on_coords fy fx) bs"
  by (simp add: map_x_def map_y_def on_coords_def)

lemma map_y_map_x: "map_y fy (map_x fx bs) = map (on_coords fy fx) bs"
  by (simp add: map_x_def map_y_def on_coords_def)

lemma on_coords_o: "on_coords fy fx \<circ> on_coords gy gx = on_coords (fy \<circ> gy) (fx \<circ> gx)"
  by (rule ext) (simp add: on_coords_def)

lemma on_coords_id: "on_coords id id = id"
  by (rule ext) (simp add: on_coords_def)

lemma select_map2:
  "select (map2 P (map g (map f bs)) (map g bs)) (map f bs)
     = map f (filter (\<lambda>b. P (g (f b)) (g b)) bs)"
  by (induction bs) (auto simp: select_def)

text \<open>Row by row: a limited box stays when the areas of the box before and after limiting
  satisfy \<open>kept\<close>.\<close>

lemma threshold_filter_map:
  "threshold_filter fl t bs (map f bs) = map f (filter (\<lambda>b. kept fl t (area b) (area (f b))) bs)"
proof (cases "t = 0")
  case True
  then show ?thesis
    using select_map2[of "\<lambda>a b. fl (real_of_int a) > fl (0 * fl (real_of_int b))" area f bs]
    by (simp add: threshold_filter_def kept_def)
next
  case False
  then show ?thesis
    using select_map2[of "\<lambda>a b. fl (real_of_int a) \<ge> fl (t * fl (real_of_int b))" area f bs]
    by (simp add: threshold_filter_def kept_def)
qed


lemma crop_trial_rule:
  assumes "0 \<le> h - rc0 \<or> 0 \<le> w - rc1"
  shows "crop_trial fl True t rc0 rc1 h w pos bs
           = map (trial_clip rc0 rc1 h w)
               (filter (\<lambda>b. kept fl t (area b) (area (trial_clip rc0 rc1 h w b)))
                  (map (trial_shift rc0 rc1 h w pos) bs))"
proof -
  obtain cy cx where pos: "pos = (cy, cx)" by (cases pos)
  let ?S = "map (trial_shift rc0 rc1 h w pos) bs"
  consider (both) "0 \<le> h - rc0" "0 \<le> w - rc1"
    | (tall) "0 \<le> h - rc0" "w - rc1 < 0"
    | (wide) "h - rc0 < 0" "0 \<le> w - rc1"
    using assms by linarith
  then have "crop_trial fl True t rc0 rc1 h w pos bs = threshold_filter fl t ?S (map (trial_clip rc0 rc1 h w) ?S)"
  proof cases
    case both
    then show ?thesis
      by (simp add: crop_trial_def pos Let_def map_x_on_coords map_y_on_coords on_coords_o trial_shift_def trial_clip_def)
  next
    case tall
    then show ?thesis
      by (simp add: crop_trial_def pos Let_def map_x_on_coords map_y_on_coords on_coords_o trial_shift_def trial_clip_def)
  next
    case wide
    then show ?thesis
      by (simp add: crop_trial_def pos Let_def map_x_on_coords map_y_on_coords on_coords_o trial_shift_def trial_clip_def)
  qed
  then show ?thesis by (simp only: threshold_filter_map)
qed

lemma fixed_crop_rule:
  "fixed_crop fl True t (c0, c1, c2, c3) s =
     \<lparr>img_height = img_height s - (c0 + c1),
      img_width = img_width s - (c2 + c3),
      boxes = map (crop_clip (c0, c1, c2, c3) (img_height s - (c0 + c1)) (img_width s - (c2 + c3)))
               (filter (\<lambda>b. kept fl t (area b)
                              (area (crop_clip (c0, c1, c2, c3) (img_height s - (c0 + c1))
                                       (img_width s - (c2 + c3)) b)))
                  (map (crop_shift (c0, c1, c2, c3)) (boxes s)))\<rparr>"
proof -
  let ?c = "(c0, c1, c2, c3)"
  let ?h = "img_height s - (c0 + c1)" and ?w = "img_width s - (c2 + c3)"
  let ?S = "map (crop_shift ?c) (boxes s)"
  have "fixed_crop fl True t ?c s =
          \<lparr>img_height = ?h, img_width = ?w,
           boxes = threshold_filter fl t ?S (map (crop_clip ?c ?h ?w) ?S)\<rparr>"
    by (simp add: fixed_crop_def Let_def crop_shift_def crop_clip_def
          map_x_on_coords map_y_on_coords on_coords_o on_coords_id o_assoc)
  then show ?thesis by (simp only: threshold_filter_map)
qed



subsection \<open>The crop loop\<close>

lemma crop_loop_stop:
  assumes "fulfilled \<or> \<not> tc < rc3"
  shows "crop_loop fl limit t (rc0, rc1, rc2, rc3) pos i fulfilled tc s rem = (s, rem, tc)"
  using assms by (subst crop_loop.simps) auto

lemma crop_loop_step:
  assumes "\<not> fulfilled" and "tc < rc3"
  shows "crop_loop fl limit t (rc0, rc1, rc2, rc3) pos i fulfilled tc s rem =
     (let patch_y = crop_trial fl limit t rc0 rc1 (img_height s) (img_width s) (pos (nat tc)) (boxes s)
      in if rc2 = 0 then (\<lparr>img_height = rc0, img_width = rc1, boxes = patch_y\<rparr>, rem, tc + 1)
         else if length patch_y > 0 then (\<lparr>img_height = rc0, img_width = rc1, boxes = patch_y\<rparr>, rem, tc + 1)
         else if tc + 1 \<ge> rc3 \<and> i \<notin> set rem then (s, rem @ [i], tc + 1)
         else crop_loop fl limit t (rc0, rc1, rc2, rc3) pos i False (tc + 1) s rem)"
  using assms by (subst crop_loop.simps) (auto simp: Let_def crop_loop_stop)

lemma crop_trial_Nil: "crop_trial fl limit t rc0 rc1 h w pos [] = []"
  by (cases pos) (simp add: crop_trial_def threshold_filter_def select_def map_x_def map_y_def Let_def)

text \<open>The counter only grows, and never beyond the limit \<^verbatim>\<open>random_crop[3]\<close>: started at 0
  with a limit \<open>N \<ge> 0\<close>, the loop performs at most \<open>N\<close> trials.\<close>

lemma crop_loop_trials:
  "tc \<le> snd (snd (crop_loop fl limit t (rc0, rc1, rc2, rc3) pos i fulfilled tc s rem))
   \<and> snd (snd (crop_loop fl limit t (rc0, rc1, rc2, rc3) pos i fulfilled tc s rem)) \<le> max tc rc3"
proof (induction "nat (rc3 - tc)" arbitrary: tc fulfilled)
  case 0
  then show ?case by (simp add: crop_loop_stop)
next
  case (Suc n)
  show ?case
  proof (cases fulfilled)
    case True
    then show ?thesis by (simp add: crop_loop_stop)
  next
    case False
    have lt: "tc < rc3" using Suc.hyps(2) by linarith
    have rec: "tc + 1 \<le> snd (snd (crop_loop fl limit t (rc0, rc1, rc2, rc3) pos i False (tc + 1) s rem))
       \<and> snd (snd (crop_loop fl limit t (rc0, rc1, rc2, rc3) pos i False (tc + 1) s rem)) \<le> max (tc + 1) rc3"
      using Suc.hyps(1)[of "tc + 1" False] Suc.hyps(2) by simp
    show ?thesis
      using False lt rec by (auto simp: crop_loop_step Let_def)
  qed
qed

text \<open>With \<^verbatim>\<open>min_1_object\<close> set, a limit of at least 1 and no boxes, the loop performs
  exactly \<open>N\<close> trials, accepts nothing and marks the image.\<close>

lemma crop_loop_no_boxes:
  assumes "boxes s = []" and "rc2 \<noteq> 0" and "tc < rc3" and "i \<notin> set rem"
  shows "crop_loop fl limit t (rc0, rc1, rc2, rc3) pos i False tc s rem = (s, rem @ [i], rc3)"
  using assms(3)
proof (induction "nat (rc3 - tc)" arbitrary: tc)
  case 0
  then show ?case by simp
next
  case (Suc n)
  show ?case
  proof (cases "tc + 1 \<ge> rc3")
    case True
    then have "tc + 1 = rc3" using Suc.prems by simp
    then show ?thesis
      using Suc.prems assms(1,2,4) by (simp add: crop_loop_step crop_trial_Nil)
  next
    case False
    then have "crop_loop fl limit t (rc0, rc1, rc2, rc3) pos i False (tc + 1) s rem = (s, rem @ [i], rc3)"
      using Suc.hyps(1)[of "tc + 1"] Suc.hyps(2) by simp
    then show ?thesis
      using Suc.prems False assms(1,2) by (simp add: crop_loop_step crop_trial_Nil)
  qed
qed

lemma crop_loop_extents:
  "extents (fst (crop_loop fl limit t (rc0, rc1, rc2, rc3) pos i fulfilled tc s rem)) = extents s
   \<or> extents (fst (crop_loop fl limit t (rc0, rc1, rc2, rc3) pos i fulfilled tc s rem)) = (rc0, rc1)"
proof (induction "nat (rc3 - tc)" arbitrary: tc fulfilled)
  case 0
  then show ?case by (simp add: crop_loop_stop)
next
  case (Suc n)
  show ?case
  proof (cases fulfilled)
    case True
    then show ?thesis by (simp add: crop_loop_stop)
  next
    case False
    have lt: "tc < rc3" using Suc.hyps(2) by linarith
    have rec: "extents (fst (crop_loop fl limit t (rc0, rc1, rc2, rc3) pos i False (tc + 1) s rem)) = extents s
      \<or> extents (fst (crop_loop fl limit t (rc0, rc1, rc2, rc3) pos i False (tc + 1) s rem)) = (rc0, rc1)"
      using Suc.hyps(1)[of "tc + 1" False] Suc.hyps(2) by simp
    show ?thesis
      using False lt rec by (auto simp: crop_loop_step Let_def extents_def)
  qed
qed

text \<open>
  Claim C4, at the limit 0.  With \<^verbatim>\<open>random_crop = (2, 2, 1, 0)\<close> the loop body, which holds
  the only statement that marks an image (line 629), is never entered: an image without
  boxes goes through zero trials, is not cropped and is not marked, and the batch is
  yielded with it, in its original extents.
\<close>

theorem zero_trials_not_removed:
  "crop_loop fl True (3 / 10) (2, 2, 1, 0) (crop_pos (draws_at (0, 0) 0)) 0 False 0
       \<lparr>img_height = 10, img_width = 10, boxes = []\<rparr> []
     = (\<lparr>img_height = 10, img_width = 10, boxes = []\<rparr>, [], 0)
   \<and> snd (next_batch fl (defaults\<lparr>batch_size := 1, train := False, random_crop := Some (2, 2, 1, 0)\<rparr>)
            load_10x10 id (draws_at (0, 0)) (start id [(''a.png'', [])]))
     = Inr (Infer_batch [(10, 10)] [[]] [''a.png''], \<lparr>samples = [(''a.png'', [])], current = 1\<rparr>)"
  by (simp add: run_defs defaults_def load_10x10_def draws_at_def)

subsection \<open>The box invariant\<close>

lemma trial_box_in_bounds:
  assumes "in_bounds h w b" and "1 \<le> rc0" and "1 \<le> rc1"
    and "0 \<le> fst p" "fst p \<le> \<bar>h - rc0\<bar>" "0 \<le> snd p" "snd p \<le> \<bar>w - rc1\<bar>"
  shows "in_bounds rc0 rc1 (trial_clip rc0 rc1 h w (trial_shift rc0 rc1 h w p b))"
  using assms
  by (auto simp: in_bounds_def trial_clip_def trial_shift_def on_coords_def limit_low_def limit_high_def)

lemma crop_trial_set:
  "set (crop_trial fl True t rc0 rc1 h w pos bs)
     \<subseteq> (\<lambda>b. trial_clip rc0 rc1 h w (trial_shift rc0 rc1 h w pos b)) ` set bs"
proof (cases "0 \<le> h - rc0 \<or> 0 \<le> w - rc1")
  case True
  then show ?thesis by (auto simp: crop_trial_rule)
next
  case False
  obtain cy cx where pos: "pos = (cy, cx)" by (cases pos)
  have "crop_trial fl True t rc0 rc1 h w pos bs = map (trial_shift rc0 rc1 h w pos) bs"
    using False by (simp add: crop_trial_def pos Let_def map_x_map_y trial_shift_def)
  moreover have "trial_clip rc0 rc1 h w = id"
    using False by (simp add: trial_clip_def on_coords_id)
  ultimately show ?thesis by auto
qed

lemma crop_trial_in_bounds:
  assumes "list_all (in_bounds h w) bs" and "1 \<le> rc0" and "1 \<le> rc1"
    and "0 \<le> fst p" "fst p \<le> \<bar>h - rc0\<bar>" "0 \<le> snd p" "snd p \<le> \<bar>w - rc1\<bar>"
  shows "list_all (in_bounds rc0 rc1) (crop_trial fl True t rc0 rc1 h w p bs)"
proof -
  have "in_bounds rc0 rc1 b'" if "b' \<in> set (crop_trial fl True t rc0 rc1 h w p bs)" for b'
  proof -
    from that crop_trial_set obtain b where b: "b \<in> set bs"
      "b' = trial_clip rc0 rc1 h w (trial_shift rc0 rc1 h w p b)" by blast
    have "in_bounds h w b" using b(1) assms(1) by (simp add: list_all_iff)
    then show ?thesis unfolding b(2) using assms(2-) by (rule trial_box_in_bounds)
  qed
  then show ?thesis by (simp add: list_all_iff)
qed

lemma crop_loop_boxes_ok:
  assumes "boxes_ok s" and "1 \<le> rc0" and "1 \<le> rc1"
    and "positions_ok rc0 rc1 (img_height s) (img_width s) pos"
  shows "boxes_ok (fst (crop_loop fl True t (rc0, rc1, rc2, rc3) pos i fulfilled tc s rem))"
proof (induction "nat (rc3 - tc)" arbitrary: tc fulfilled)
  case 0
  then show ?case using assms(1) by (simp add: crop_loop_stop)
next
  case (Suc n)
  show ?case
  proof (cases fulfilled)
    case True
    then show ?thesis using assms(1) by (simp add: crop_loop_stop)
  next
    case False
    have lt: "tc < rc3" using Suc.hyps(2) by linarith
    let ?patch = "crop_trial fl True t rc0 rc1 (img_height s) (img_width s) (pos (nat tc)) (boxes s)"
    have pk: "0 \<le> fst (pos (nat tc))" "fst (pos (nat tc)) \<le> \<bar>img_height s - rc0\<bar>"
       "0 \<le> snd (pos (nat tc))" "snd (pos (nat tc)) \<le> \<bar>img_width s - rc1\<bar>"
      using assms(4) by (simp_all add: positions_ok_def)
    have acc: "boxes_ok \<lparr>img_height = rc0, img_width = rc1, boxes = ?patch\<rparr>"
      using crop_trial_in_bounds[OF _ assms(2,3) pk, of "boxes s" fl t] assms(1)
      by (simp add: boxes_ok_def)
    have rec: "boxes_ok (fst (crop_loop fl True t (rc0, rc1, rc2, rc3) pos i False (tc + 1) s rem))"
      using Suc.hyps(1)[of "tc + 1" False] Suc.hyps(2) by simp
    show ?thesis
      using False lt acc rec assms(1) by (simp add: crop_loop_step Let_def)
  qed
qed

lemma fixed_crop_box_in_bounds:
  assumes "in_bounds h w b" and "1 \<le> h - (c0 + c1)" and "1 \<le> w - (c2 + c3)"
  shows "in_bounds (h - (c0 + c1)) (w - (c2 + c3))
           (crop_clip (c0, c1, c2, c3) (h - (c0 + c1)) (w - (c2 + c3)) (crop_shift (c0, c1, c2, c3) b))"
  using assms
  by (auto simp: in_bounds_def crop_clip_def crop_shift_def on_coords_def limit_low_def limit_high_def)

lemma fixed_crop_boxes_ok:
  assumes "boxes_ok s" and "1 \<le> img_height s - (c0 + c1)" and "1 \<le> img_width s - (c2 + c3)"
  shows "boxes_ok (fixed_crop fl True t (c0, c1, c2, c3) s)"
  using assms
  by (auto simp: fixed_crop_rule boxes_ok_def list_all_iff fixed_crop_box_in_bounds)

lemma resize_boxes_ok:
  assumes fl: "float_like fl" and ok: "boxes_ok s"
    and r: "1 \<le> r0" "r0 \<le> 2 ^ 31" "1 \<le> r1" "r1 \<le> 2 ^ 31"
    and ext: "img_height s \<le> 2 ^ 31" "img_width s \<le> 2 ^ 31"
    and res: "resize_step fl (r0, r1) s = Inr s'"
  shows "boxes_ok s'"
proof -
  have nz: "img_width s \<noteq> 0" "img_height s \<noteq> 0"
    using res by (auto simp: resize_step_def split: if_splits)
  let ?fy = "\<lambda>y. astype_int (fl (fl (real_of_int y) * fl (real_of_int r1 / real_of_int (img_height s))))"
  let ?fx = "\<lambda>x. astype_int (fl (fl (real_of_int x) * fl (real_of_int r0 / real_of_int (img_width s))))"
  have s': "s' = \<lparr>img_height = r1, img_width = r0, boxes = map_y ?fy (map_x ?fx (boxes s))\<rparr>"
    using res nz by (simp add: resize_step_def Let_def)
  have "in_bounds r1 r0 (on_coords ?fy ?fx b)"
    if "in_bounds (img_height s) (img_width s) b" for b
  proof -
    from that have x: "0 \<le> xmin b" "xmin b \<le> xmax b" "xmax b < img_width s"
      and y: "0 \<le> ymin b" "ymin b \<le> ymax b" "ymax b < img_height s"
      by (simp_all add: in_bounds_def)
    show ?thesis
      using scaled_in_range[OF fl x ext(2) r(1,2)] scaled_in_range[OF fl y ext(1) r(3,4)]
      by (simp add: in_bounds_def on_coords_def)
  qed
  then show ?thesis using ok
    by (simp add: s' boxes_ok_def map_y_map_x list_all_iff)
qed

lemma fixed_crop_extents:
  "extents (fixed_crop fl limit t (c0, c1, c2, c3) s)
     = (img_height s - (c0 + c1), img_width s - (c2 + c3))"
  by (simp add: fixed_crop_def extents_def Let_def)

lemma augment_image_boxes_ok:
  assumes fl: "float_like fl" and lim: "limit_boxes cfg" and ok: "boxes_ok s"
    and fit: "crops_fit cfg (img_height s) (img_width s)"
    and dr: "draws_fit cfg (img_height s) (img_width s) d"
    and res: "augment_image fl cfg d i s rem = Inr (s', rem')"
  shows "boxes_ok s'"
proof -
  define s1 where "s1 = (case random_crop cfg of None \<Rightarrow> s
      | Some rc \<Rightarrow> fst (crop_loop fl (limit_boxes cfg) (include_thresh cfg) rc (crop_pos d) i False 0 s rem))"
  define s2 where "s2 = (case crop cfg of None \<Rightarrow> s1
      | Some c \<Rightarrow> fixed_crop fl (limit_boxes cfg) (include_thresh cfg) c s1)"
  have ok1: "boxes_ok s1"
  proof (cases "random_crop cfg")
    case None
    then show ?thesis using ok by (simp add: s1_def)
  next
    case (Some rc)
    obtain rc0 rc1 rc2 rc3 where rc: "rc = (rc0, rc1, rc2, rc3)" by (cases rc) auto
    show ?thesis
      using crop_loop_boxes_ok[OF ok, where ?rc0.0 = rc0 and ?rc1.0 = rc1 and pos = "crop_pos d"
              and fl = fl and t = "include_thresh cfg" and ?rc2.0 = rc2 and ?rc3.0 = rc3 and i = i
              and fulfilled = False and tc = 0 and rem = rem]
        fit dr lim Some rc by (simp add: s1_def crops_fit_def draws_fit_def)
  qed
  have ext1: "extents s1 = extents s
      \<or> (\<exists>rc0 rc1 rc2 rc3. random_crop cfg = Some (rc0, rc1, rc2, rc3) \<and> extents s1 = (rc0, rc1))"
  proof (cases "random_crop cfg")
    case None
    then show ?thesis by (simp add: s1_def)
  next
    case (Some rc)
    obtain rc0 rc1 rc2 rc3 where rc: "rc = (rc0, rc1, rc2, rc3)" by (cases rc) auto
    show ?thesis
      using crop_loop_extents[where fl = fl and limit = "limit_boxes cfg" and t = "include_thresh cfg"
              and ?rc0.0 = rc0 and ?rc1.0 = rc1 and ?rc2.0 = rc2 and ?rc3.0 = rc3
              and pos = "crop_pos d" and i = i and fulfilled = False and tc = 0 and s = s
              and rem = rem]
        Some rc by (auto simp: s1_def)
  qed
  have small1: "img_height s1 \<le> 2 ^ 31 \<and> img_width s1 \<le> 2 ^ 31"
    using ext1 fit by (auto simp: crops_fit_def extents_def)
  have ok2: "boxes_ok s2" and small2: "img_height s2 \<le> 2 ^ 31 \<and> img_width s2 \<le> 2 ^ 31"
  proof -
    show "boxes_ok s2"
    proof (cases "crop cfg")
      case None
      then show ?thesis using ok1 by (simp add: s2_def)
    next
      case (Some c)
      obtain c0 c1 c2 c3 where c: "c = (c0, c1, c2, c3)" by (cases c) auto
      have "1 \<le> img_height s1 - (c0 + c1) \<and> 1 \<le> img_width s1 - (c2 + c3)"
        using ext1 fit Some c by (auto simp: crops_fit_def extents_def)
      then show ?thesis
        using fixed_crop_boxes_ok[OF ok1, where ?c0.0 = c0 and ?c1.0 = c1 and ?c2.0 = c2
                and ?c3.0 = c3 and fl = fl and t = "include_thresh cfg"] lim Some c
        by (simp add: s2_def)
    qed
    show "img_height s2 \<le> 2 ^ 31 \<and> img_width s2 \<le> 2 ^ 31"
    proof (cases "crop cfg")
      case None
      then show ?thesis using small1 by (simp add: s2_def)
    next
      case (Some c)
      obtain c0 c1 c2 c3 where c: "c = (c0, c1, c2, c3)" by (cases c) auto
      have "0 \<le> c0 + c1 \<and> 0 \<le> c2 + c3"
        using fit Some c by (simp add: crops_fit_def)
      then show ?thesis
        using small1 Some c
          fixed_crop_extents[of fl "limit_boxes cfg" "include_thresh cfg" c0 c1 c2 c3 s1]
        by (simp add: s2_def extents_def)
    qed
  qed
  have unf: "augment_image fl cfg d i s rem =
      (case resize cfg of None \<Rightarrow> Inr (s2, snd (case random_crop cfg of None \<Rightarrow> (s, rem)
               | Some rc \<Rightarrow> (case crop_loop fl (limit_boxes cfg) (include_thresh cfg) rc (crop_pos d) i False 0 s rem of
                      (s', rem', trials) \<Rightarrow> (s', rem'))))
       | Some r \<Rightarrow> bind_err (resize_step fl r s2) (\<lambda>s3. Inr (s3, snd (case random_crop cfg of None \<Rightarrow> (s, rem)
               | Some rc \<Rightarrow> (case crop_loop fl (limit_boxes cfg) (include_thresh cfg) rc (crop_pos d) i False 0 s rem of
                      (s', rem', trials) \<Rightarrow> (s', rem'))))))"
    using res
    by (auto simp: augment_image_def s1_def s2_def Let_def case_prod_beta
          split: if_splits option.splits)
  show ?thesis
  proof (cases "resize cfg")
    case None
    then show ?thesis using unf res ok2 by simp
  next
    case (Some r)
    obtain r0 r1 where r: "r = (r0, r1)" by (cases r)
    from unf res Some have rs: "resize_step fl (r0, r1) s2 = Inr s'"
      by (auto simp: bind_err_def r split: sum.splits)
    have rr: "1 \<le> r0" "r0 \<le> 2 ^ 31" "1 \<le> r1" "r1 \<le> 2 ^ 31"
      using fit Some r by (simp_all add: crops_fit_def)
    show ?thesis
      using resize_boxes_ok[OF fl ok2 rr _ _ rs] small2 by simp
  qed
qed




text \<open>The invariant for a whole batch: when every image of the window enters the
  transforms with its boxes within it, every box of the yielded batch lies within its
  image.\<close>

lemma load_images_length:
  assumes "load_images load fs = Inr imgs"
  shows "length imgs = length fs"
  using assms
  by (induction fs arbitrary: imgs) (auto simp: bind_err_def split: sum.splits)


lemma window_items_length:
  assumes "load_images load (map fst window) = Inr batch_x"
  shows "length (window_items batch_x window) = length window"
  using load_images_length[OF assms] by (simp add: window_items_def)

lemma next_batch_unfold:
  "next_batch fl cfg load shuffle rnd st =
     (opened load (map fst (fst (next_window shuffle (batch_size cfg) st))),
      bind_err (load_images load (map fst (fst (next_window shuffle (batch_size cfg) st)))) (\<lambda>batch_x.
      bind_err (augment_all fl cfg rnd 0 (window_items batch_x (fst (next_window shuffle (batch_size cfg) st))) [])
        (\<lambda>(items, batch_items_to_remove).
           if train cfg then
             (case ssd_box_encoder cfg of
                None \<Rightarrow> Inl ValueError
              | Some encode_y \<Rightarrow>
                  Inr (Train_batch (map extents (remove_items batch_items_to_remove items))
                         (encode_y (map boxes (remove_items batch_items_to_remove items))),
                       snd (next_window shuffle (batch_size cfg) st)))
           else Inr (Infer_batch (map extents (remove_items batch_items_to_remove items))
                       (map boxes (remove_items batch_items_to_remove items))
                       (map fst (fst (next_window shuffle (batch_size cfg) st))),
                     snd (next_window shuffle (batch_size cfg) st)))))"
  by (simp add: next_batch_def Let_def case_prod_beta)

lemma augment_all_boxes_ok:
  assumes "float_like fl" and "limit_boxes cfg"
    and "\<forall>k<length ss. boxes_ok (ss ! k) \<and> crops_fit cfg (img_height (ss ! k)) (img_width (ss ! k))
                \<and> draws_fit cfg (img_height (ss ! k)) (img_width (ss ! k)) (rnd (i + k))"
    and "augment_all fl cfg rnd i ss rem = Inr (ss', rem')"
  shows "list_all boxes_ok ss'"
  using assms(3,4)
proof (induction ss arbitrary: i rem ss' rem')
  case Nil
  then show ?case by simp
next
  case (Cons s ss)
  from Cons.prems(2) obtain s1 rem1 where
    a: "augment_image fl cfg (rnd i) i s rem = Inr (s1, rem1)"
    by (auto simp: bind_err_def split: sum.splits)
  with Cons.prems(2) obtain ss1 rem2 where
    b: "augment_all fl cfg rnd (Suc i) ss rem1 = Inr (ss1, rem2)" and r: "ss' = s1 # ss1"
    by (auto simp: bind_err_def split: sum.splits)
  have h0: "boxes_ok s" "crops_fit cfg (img_height s) (img_width s)"
      "draws_fit cfg (img_height s) (img_width s) (rnd i)"
    using Cons.prems(1) by auto
  have hs: "\<forall>k<length ss. boxes_ok (ss ! k) \<and> crops_fit cfg (img_height (ss ! k)) (img_width (ss ! k))
                \<and> draws_fit cfg (img_height (ss ! k)) (img_width (ss ! k)) (rnd (Suc i + k))"
    using Cons.prems(1) by auto
  have "boxes_ok s1" using augment_image_boxes_ok[OF assms(1,2) h0 a] .
  moreover have "list_all boxes_ok ss1" using Cons.IH[OF hs b] .
  ultimately show ?case using r by simp
qed

lemma pop_subset: "set (pop j xs) \<subseteq> set xs"
  using set_take_subset[of j xs] set_drop_subset[of "Suc j" xs] by (auto simp: pop_def)

lemma foldl_pop_subset: "set (foldl (\<lambda>acc j. pop j acc) xs js) \<subseteq> set xs"
proof (induction js arbitrary: xs)
  case Nil
  then show ?case by simp
next
  case (Cons j js)
  show ?case using Cons.IH[of "pop j xs"] pop_subset[of j xs] by auto
qed

lemma remove_items_subset: "set (remove_items rem xs) \<subseteq> set xs"
  by (simp add: remove_items_def foldl_pop_subset)

lemma yielded_boxes_ok:
  assumes "float_like fl" and "limit_boxes cfg"
    and "load_images load (map fst (fst (next_window shuffle (batch_size cfg) st))) = Inr batch_x"
    and "\<forall>s \<in> set (window_items batch_x (fst (next_window shuffle (batch_size cfg) st))).
           boxes_ok s \<and> crops_fit cfg (img_height s) (img_width s)
           \<and> (\<forall>k. draws_fit cfg (img_height s) (img_width s) (rnd k))"
    and "snd (next_batch fl cfg load shuffle rnd st) = Inr (Infer_batch exts labels names, st')"
  shows "list_all2 (\<lambda>(h, w) bs. list_all (in_bounds h w) bs) exts labels"
proof -
  let ?items = "window_items batch_x (fst (next_window shuffle (batch_size cfg) st))"
  from assms(3,5) obtain items rem where
    a: "augment_all fl cfg rnd 0 ?items [] = Inr (items, rem)"
    and e: "exts = map extents (remove_items rem items)"
           "labels = map boxes (remove_items rem items)"
    by (auto simp: next_batch_unfold bind_err_def split: sum.splits if_splits option.splits)
  have "\<forall>k<length ?items. boxes_ok (?items ! k)
          \<and> crops_fit cfg (img_height (?items ! k)) (img_width (?items ! k))
          \<and> draws_fit cfg (img_height (?items ! k)) (img_width (?items ! k)) (rnd (0 + k))"
    using assms(4) by simp
  from augment_all_boxes_ok[OF assms(1,2) this a] have "list_all boxes_ok items" .
  then have "list_all boxes_ok (remove_items rem items)"
    using remove_items_subset[of rem items] by (auto simp: list_all_iff)
  then show ?thesis
    by (simp add: e list_all2_map1 list_all2_map2 list_all2_same list_all_iff boxes_ok_def extents_def)
qed

text \<open>The remap of line 424 does not keep a box that touches the left edge within the
  image: \<open>xmin = 0\<close> becomes \<open>xmax = img_width\<close>.  The line is not reached by any run
  (claim C2).\<close>

lemma flip_boxes_left_edge:
  "flip_boxes 10 [corner_box] = [\<lparr>class_id = 0, xmin = 8, xmax = 10, ymin = 0, ymax = 2\<rparr>]"
  by (simp add: flip_boxes_def corner_box_def)

subsection \<open>The calls of shadowed names\<close>

lemma augment_image_taken:
  assumes "shadowed_call fl cfg d"
  shows "augment_image fl cfg d i s rem = Inl TypeError"
  using assms by (auto simp: augment_image_def shadowed_call_def)

lemma augment_image_Inr:
  assumes "augment_image fl cfg d i s rem = Inr r"
  shows "\<not> shadowed_call fl cfg d"
  using assms augment_image_taken[of fl cfg d i s rem] by auto

lemma augment_all_Inr:
  assumes "augment_all fl cfg rnd i ss rem = Inr r" and "k < length ss"
  shows "\<not> shadowed_call fl cfg (rnd (i + k))"
  using assms
proof (induction ss arbitrary: i rem r k)
  case Nil
  then show ?case by simp
next
  case (Cons s ss)
  from Cons.prems(1) obtain s' rem' where
    a: "augment_image fl cfg (rnd i) i s rem = Inr (s', rem')"
    by (auto simp: bind_err_def split: sum.splits)
  with Cons.prems(1) obtain r' where
    b: "augment_all fl cfg rnd (Suc i) ss rem' = Inr r'"
    by (auto simp: bind_err_def split: sum.splits)
  show ?case
  proof (cases k)
    case 0
    then show ?thesis using augment_image_Inr[OF a] by simp
  next
    case (Suc k')
    then show ?thesis using Cons.IH[OF b, of k'] Cons.prems(2) by simp
  qed
qed

lemma augment_all_first_taken:
  assumes "k < length ss" and "shadowed_call fl cfg (rnd (i + k))"
    and "augment_all fl cfg rnd i (take k ss) rem = Inr r"
  shows "augment_all fl cfg rnd i ss rem = Inl TypeError"
  using assms
proof (induction ss arbitrary: i rem r k)
  case Nil
  then show ?case by simp
next
  case (Cons s ss)
  show ?case
  proof (cases k)
    case 0
    then show ?thesis using Cons.prems(2) by (simp add: augment_image_taken bind_err_def)
  next
    case (Suc k')
    from Cons.prems(3) Suc obtain s' rem' where
      a: "augment_image fl cfg (rnd i) i s rem = Inr (s', rem')"
      by (auto simp: bind_err_def split: sum.splits)
    with Cons.prems(3) Suc obtain r' where
      b: "augment_all fl cfg rnd (Suc i) (take k' ss) rem' = Inr r'"
      by (auto simp: bind_err_def split: sum.splits)
    have "augment_all fl cfg rnd (Suc i) ss rem' = Inl TypeError"
      using Cons.IH[OF _ _ b] Cons.prems(1,2) Suc by simp
    then show ?thesis using a by (simp add: bind_err_def)
  qed
qed

text \<open>
  Claim C2.  When the brightness, flip or scale branch is taken for an image, the
  transforms of that image raise \<^verbatim>\<open>TypeError\<close>.  A call that yields a batch has taken none
  of the three branches for any image of its window.  When the images load, the images
  before the \<open>k\<close>-th are transformed without error and the \<open>k\<close>-th takes one of the
  branches, the call raises \<^verbatim>\<open>TypeError\<close>.
\<close>

theorem shadowed_calls_raise:
  "(shadowed_call fl cfg d \<longrightarrow> augment_image fl cfg d i s rem = Inl TypeError)
   \<and> (snd (next_batch fl cfg load shuffle rnd st) = Inr (b, st')
        \<longrightarrow> (\<forall>k < length (fst (next_window shuffle (batch_size cfg) st)). \<not> shadowed_call fl cfg (rnd k)))
   \<and> (load_images load (map fst (fst (next_window shuffle (batch_size cfg) st))) = Inr batch_x
        \<and> k < length (fst (next_window shuffle (batch_size cfg) st))
        \<and> augment_all fl cfg rnd 0
             (take k (window_items batch_x (fst (next_window shuffle (batch_size cfg) st)))) [] = Inr r
        \<and> shadowed_call fl cfg (rnd k)
        \<longrightarrow> snd (next_batch fl cfg load shuffle rnd st) = Inl TypeError)"
proof (intro conjI impI allI)
  assume "shadowed_call fl cfg d"
  then show "augment_image fl cfg d i s rem = Inl TypeError" by (rule augment_image_taken)
next
  fix j
  let ?window = "fst (next_window shuffle (batch_size cfg) st)"
  assume y: "snd (next_batch fl cfg load shuffle rnd st) = Inr (b, st')" and j: "j < length ?window"
  from y obtain batch_x where l: "load_images load (map fst ?window) = Inr batch_x"
    by (auto simp: next_batch_unfold bind_err_def split: sum.splits)
  with y obtain r' where a: "augment_all fl cfg rnd 0 (window_items batch_x ?window) [] = Inr r'"
    by (auto simp: next_batch_unfold bind_err_def split: sum.splits)
  show "\<not> shadowed_call fl cfg (rnd j)"
    using augment_all_Inr[OF a, of j] j window_items_length[OF l] by simp
next
  let ?window = "fst (next_window shuffle (batch_size cfg) st)"
  assume h: "load_images load (map fst ?window) = Inr batch_x
        \<and> k < length ?window
        \<and> augment_all fl cfg rnd 0 (take k (window_items batch_x ?window)) [] = Inr r
        \<and> shadowed_call fl cfg (rnd k)"
  then have "augment_all fl cfg rnd 0 (window_items batch_x ?window) [] = Inl TypeError"
    using augment_all_first_taken[of k "window_items batch_x ?window" fl cfg rnd 0 "[]" r]
      window_items_length[of load ?window batch_x] by simp
  then show "snd (next_batch fl cfg load shuffle rnd st) = Inl TypeError"
    using h by (simp add: next_batch_unfold bind_err_def)
qed

theorem shadowed_calls_witness:
  "shadowed_call id (defaults\<lparr>batch_size := 2, flip_prob := Some 1\<rparr>) (draws_at (0, 0) 1)
   \<and> augment_image id (defaults\<lparr>batch_size := 2, flip_prob := Some 1\<rparr>) (draws_at (0, 0) 1) 1
         \<lparr>img_height = 10, img_width = 10, boxes = [far_box]\<rparr> [] = Inl TypeError
   \<and> snd (next_batch id (defaults\<lparr>batch_size := 2, flip_prob := Some 1\<rparr>) load_10x10 id
            (draws_at (0, 0)) (start id two_samples)) = Inl TypeError
   \<and> snd (next_batch id (defaults\<lparr>batch_size := 2, train := False, flip_prob := Some (1 / 2)\<rparr>)
            load_10x10 id (draws_at (0, 0)) (start id two_samples))
       = Inr (Infer_batch [(10, 10), (10, 10)] [[corner_box], [far_box]] [''a.png'', ''b.png''],
              \<lparr>samples = two_samples, current = 2\<rparr>)
   \<and> \<not> shadowed_call id (defaults\<lparr>batch_size := 2, train := False, flip_prob := Some (1 / 2)\<rparr>)
         (draws_at (0, 0) 1)"
proof -
  let ?on = "defaults\<lparr>batch_size := 2, flip_prob := Some 1\<rparr>"
  let ?off = "defaults\<lparr>batch_size := 2, train := False, flip_prob := Some (1 / 2)\<rparr>"
  let ?st = "start id two_samples"
  have taken: "shadowed_call id ?on (draws_at (0, 0) 1)"
    by (simp add: shadowed_call_def flip_taken_def defaults_def draws_at_def)
  have win: "fst (next_window id (batch_size ?on) ?st) = two_samples"
      "fst (next_window id (batch_size ?off) ?st) = two_samples"
    by (simp_all add: next_window_def reshuffle_if_done_def slice_def start_def defaults_def
          two_samples_def)
  have ld: "load_images load_10x10 (map fst two_samples) = Inr [(10, 10), (10, 10)]"
    by (simp add: two_samples_def load_10x10_def bind_err_def)
  have first: "augment_all id ?on (draws_at (0, 0)) 0
                 (take 0 (window_items [(10, 10), (10, 10)] two_samples)) [] = Inr ([], [])"
    by simp
  have yield: "snd (next_batch id ?off load_10x10 id (draws_at (0, 0)) ?st)
       = Inr (Infer_batch [(10, 10), (10, 10)] [[corner_box], [far_box]] [''a.png'', ''b.png''],
              \<lparr>samples = two_samples, current = 2\<rparr>)"
    by (simp add: run_defs defaults_def load_10x10_def draws_at_def two_samples_def)
  have raised: "snd (next_batch id ?on load_10x10 id (draws_at (0, 0)) ?st) = Inl TypeError"
    using shadowed_calls_raise[of id ?on "draws_at (0, 0) 1" 1
            "\<lparr>img_height = 10, img_width = 10, boxes = [far_box]\<rparr>" "[]" load_10x10 id
            "draws_at (0, 0)" ?st undefined undefined "[(10, 10), (10, 10)]" 0 "([], [])"]
      win ld first
    by (simp add: two_samples_def shadowed_call_def flip_taken_def defaults_def draws_at_def)
  have not_taken: "\<not> shadowed_call id ?off (draws_at (0, 0) 1)"
    using shadowed_calls_raise[of id ?off "draws_at (0, 0) 1" 1
            "\<lparr>img_height = 10, img_width = 10, boxes = [far_box]\<rparr>" "[]" load_10x10 id
            "draws_at (0, 0)" ?st
            "Infer_batch [(10, 10), (10, 10)] [[corner_box], [far_box]] [''a.png'', ''b.png'']"
            "\<lparr>samples = two_samples, current = 2\<rparr>" "[]" 0 "([], [])"]
      yield win
    by (simp add: two_samples_def)
  have one: "augment_image id ?on (draws_at (0, 0) 1) 1
         \<lparr>img_height = 10, img_width = 10, boxes = [far_box]\<rparr> [] = Inl TypeError"
    using shadowed_calls_raise[of id ?on "draws_at (0, 0) 1" 1
            "\<lparr>img_height = 10, img_width = 10, boxes = [far_box]\<rparr>" "[]" load_10x10 id
            "draws_at (0, 0)" ?st undefined undefined "[]" 0 "([], [])"]
      taken by blast
  show ?thesis using taken one raised yield not_taken by simp
qed

subsection \<open>Training mode without an encoder\<close>




subsection \<open>The file names of removed images\<close>

text \<open>In inference mode the yielded file names are those of the whole window, whatever
  was removed from the images and the labels.\<close>

lemma infer_filenames:
  assumes "snd (next_batch fl cfg load shuffle rnd st) = Inr (Infer_batch exts labels names, st')"
  shows "names = map fst (fst (next_window shuffle (batch_size cfg) st))"
  using assms
  by (auto simp: next_batch_unfold bind_err_def split: sum.splits if_splits option.splits)

text \<open>
  Claim C8, at a batch with a removed image.  The random crop of \<^verbatim>\<open>a.png\<close> leaves no box
  in its only trial, so the image and its labels are removed (lines 695--697);
  \<^verbatim>\<open>this_filenames\<close> is not touched.  The batch has one image and one label array, of
  \<^verbatim>\<open>b.png\<close>, and two file names, the first of which is \<^verbatim>\<open>a.png\<close>.
\<close>

theorem filenames_keep_removed_image:
  assumes "float_like fl"
  shows "next_batch fl (defaults\<lparr>batch_size := 2, train := False, random_crop := Some (2, 2, 1, 1)\<rparr>)
           load_10x10 id (draws_at (8, 8)) (start id two_samples)
         = ([''a.png'', ''b.png''],
            Inr (Infer_batch [(2, 2)] [[\<lparr>class_id = 0, xmin = 0, xmax = 1, ymin = 0, ymax = 1\<rparr>]]
                   [''a.png'', ''b.png''],
                 \<lparr>samples = two_samples, current = 2\<rparr>))"
proof -
  let ?t = "5404319552844595 / 18014398509481984 :: real"
  have e: "fl 0 = 0" "fl 1 = 1" "fl 4 = 4"
    using float_like_int[OF assms, of 0] float_like_int[OF assms, of 1]
      float_like_int[OF assms, of 4]
    by simp_all
  have small: "fl (?t * 1) \<le> 1"
    using float_like_mono[OF assms, of "?t * 1" 1] e by simp
  have large: "1 \<le> fl (?t * 4)"
    using float_like_mono[OF assms, of 1 "?t * 4"] e by simp
  show ?thesis
    using small large
    by (simp add: run_defs defaults_def load_10x10_def draws_at_def two_samples_def corner_box_def
          far_box_def e)
qed

theorem filenames_keep_removed_image_witness:
  "float_like id
   \<and> next_batch id (defaults\<lparr>batch_size := 2, train := False, random_crop := Some (2, 2, 1, 1)\<rparr>)
         load_10x10 id (draws_at (8, 8)) (start id two_samples)
       = ([''a.png'', ''b.png''],
          Inr (Infer_batch [(2, 2)] [[\<lparr>class_id = 0, xmin = 0, xmax = 1, ymin = 0, ymax = 1\<rparr>]]
                 [''a.png'', ''b.png''],
               \<lparr>samples = two_samples, current = 2\<rparr>))"
  using filenames_keep_removed_image[OF float_like_id] float_like_id
  by simp

end
